theory Spec2Isabelle
  imports Complex_Main "HOL-Library.Log_Nat" "HOL-Library.Word"
begin

section \<open>Python values used by the two scripts\<close>

text \<open>
  Exceptions are values. The first group derives from Python's \<open>Exception\<close>; the last
  two (\<open>KeyboardInterrupt\<close>, \<open>SystemExit\<close>) derive from \<open>BaseException\<close> only, so an
  \<open>except Exception\<close> clause does not catch them.
\<close>

datatype py_exception =
    ZeroDivisionError | OverflowError | ValueError | TypeError | AttributeError
  | OSError | DownloadError
  | KeyboardInterrupt | SystemExit


text \<open>How a call ends: it returns a value, or an exception leaves it.\<close>

datatype 'a outcome = Returned 'a | Raised py_exception

subsection \<open>Binary64 floating point\<close>

text \<open>
  A finite Python float is the rational number it denotes. \<open>fl\<close> rounds an exact result to
  the nearest double, ties to even: 53 significant bits, least normal exponent \<open>-1022\<close>
  (below it the spacing stays \<open>2 powi -1074\<close>). The exponent is not bounded above here;
  every operation checks the rounded magnitude against \<open>2 ^ 1024\<close> itself.
\<close>

definition ilog2 :: "rat \<Rightarrow> int" where
  "ilog2 x = (case quotient_of x of (p, q) \<Rightarrow>
     let c = bitlen p - bitlen q in if 2 powi c \<le> x then c else c - 1)"

definition rne :: "rat \<Rightarrow> int" where
  "rne q = (let f = \<lfloor>q\<rfloor>; r = q - of_int f in
     if r < 1/2 then f else if 1/2 < r then f + 1 else if even f then f else f + 1)"

definition fl_pos :: "rat \<Rightarrow> rat" where
  "fl_pos x = (let e = max (ilog2 x) (-1022); u = 2 powi (e - 52)
     in of_int (rne (x / u)) * u)"

definition fl :: "rat \<Rightarrow> rat" where
  "fl x = (if x = 0 then 0 else if 0 < x then fl_pos x else - fl_pos (- x))"

datatype pyfloat = Fin rat | PosInf | NegInf

definition overflows :: "rat \<Rightarrow> bool" where
  "overflows r = (2 ^ 1024 \<le> \<bar>r\<bar>)"

definition round_result :: "rat \<Rightarrow> pyfloat" where
  "round_result x = (let r = fl x in
     if 2 ^ 1024 \<le> r then PosInf else if r \<le> - (2 ^ 1024) then NegInf else Fin r)"

text \<open>\<open>a / b\<close> on two ints: correctly rounded, and an error rather than an infinity.\<close>

definition int_truediv :: "int \<Rightarrow> int \<Rightarrow> py_exception + rat" where
  "int_truediv a b =
     (if b = 0 then Inl ZeroDivisionError
      else let r = fl (of_int a / of_int b) in
        if overflows r then Inl OverflowError else Inr r)"

text \<open>The implicit conversion of an int operand in \<open>int * float\<close> and \<open>int / float\<close>.\<close>

definition float_of_int :: "int \<Rightarrow> py_exception + rat" where
  "float_of_int n = (let r = fl (of_int n) in
     if overflows r then Inl OverflowError else Inr r)"

text \<open>Float times float and float by float give an infinity on overflow, not an error.\<close>

definition float_mul :: "rat \<Rightarrow> rat \<Rightarrow> pyfloat" where
  "float_mul a b = round_result (a * b)"

definition float_div :: "rat \<Rightarrow> rat \<Rightarrow> py_exception + pyfloat" where
  "float_div a b = (if b = 0 then Inl ZeroDivisionError else Inr (round_result (a / b)))"

text \<open>\<open>int(x)\<close> truncates towards zero and refuses an infinity.\<close>

fun py_int :: "pyfloat \<Rightarrow> py_exception + int" where
  "py_int (Fin r) = Inr (if 0 \<le> r then \<lfloor>r\<rfloor> else \<lceil>r\<rceil>)"
| "py_int PosInf = Inl OverflowError"
| "py_int NegInf = Inl OverflowError"

section \<open>16_9_video_gen.py\<close>

subsection \<open>Dimensions (lines 27 to 42)\<close>

record geometry =
  new_width :: int
  new_height :: int
  h_padding :: int
  v_padding :: int

definition target_ratio :: rat where
  "target_ratio = fl (16 / 9)"

text \<open>The branch of lines 31 to 42, given \<open>current_ratio\<close>.\<close>

definition new_dimensions :: "rat \<Rightarrow> int \<Rightarrow> int \<Rightarrow> py_exception + geometry" where
  "new_dimensions current_ratio width height =
     (if current_ratio < target_ratio then
        (case float_of_int height of
           Inl e \<Rightarrow> Inl e
         | Inr h \<Rightarrow>
            (case py_int (float_mul h target_ratio) of
               Inl e \<Rightarrow> Inl e
             | Inr nw \<Rightarrow>
                 Inr \<lparr>new_width = nw, new_height = height,
                      h_padding = (nw - width) div 2, v_padding = 0\<rparr>))
      else
        (case float_of_int width of
           Inl e \<Rightarrow> Inl e
         | Inr w \<Rightarrow>
            (case float_div w target_ratio of
               Inl e \<Rightarrow> Inl e
             | Inr x \<Rightarrow>
                (case py_int x of
                   Inl e \<Rightarrow> Inl e
                 | Inr nh \<Rightarrow>
                     Inr \<lparr>new_width = width, new_height = nh,
                          h_padding = 0, v_padding = (nh - height) div 2\<rparr>))))"

text \<open>Lines 27 to 42 together: the ratio of line 27, then the branch.\<close>

definition target_geometry :: "int \<Rightarrow> int \<Rightarrow> py_exception + geometry" where
  "target_geometry width height =
     (case int_truediv width height of
        Inl e \<Rightarrow> Inl e
      | Inr current_ratio \<Rightarrow> new_dimensions current_ratio width height)"

subsection \<open>Frames and the canvas (lines 62 to 65)\<close>

text \<open>
  A frame is an array of shape (rows, columns, 3) of bytes: a list of rows, each a list of
  pixels. Arrays are rectangular; \<open>is_frame\<close> says so for a list of lists. (A list of no
  rows does not record a number of columns; a decoder delivers no such frame.)
\<close>

type_synonym pixel = "8 word \<times> 8 word \<times> 8 word"
type_synonym frame = "pixel list list"

definition black :: pixel where
  "black = (0, 0, 0)"

definition is_frame :: "int \<Rightarrow> int \<Rightarrow> frame \<Rightarrow> bool" where
  "is_frame height width f =
     (int (length f) = height \<and> list_all (\<lambda>row. int (length row) = width) f)"

definition np_zeros :: "int \<Rightarrow> int \<Rightarrow> py_exception + frame" where
  "np_zeros rows cols =
     (if rows < 0 \<or> cols < 0 then Inl ValueError
      else Inr (replicate (nat rows) (replicate (nat cols) black)))"

text \<open>
  The index range \<open>start:stop\<close> selects on an axis of length \<open>n\<close>: a negative bound counts
  from the end, both are clamped to the axis, and an inverted range is empty.
\<close>

definition slice_bounds :: "int \<Rightarrow> int \<Rightarrow> int \<Rightarrow> nat \<times> nat" where
  "slice_bounds start stop n =
     (let a = (if start < 0 then max (start + n) 0 else min start n);
          b = (if stop < 0 then max (stop + n) 0 else min stop n)
      in (nat a, nat (max a b)))"

text \<open>
  Assigning an array to a slice needs the array's shape to broadcast to the slice's: on
  each axis the lengths agree or the array's is 1 (it is then repeated).
\<close>

definition broadcast_to :: "nat \<Rightarrow> nat \<Rightarrow> frame \<Rightarrow> py_exception + frame" where
  "broadcast_to rows cols f =
     (let fh = length f; fw = (case f of [] \<Rightarrow> 0 | row # _ \<Rightarrow> length row) in
      if (fh = rows \<or> fh = 1) \<and> (fw = cols \<or> fw = 1) then
        Inr (map (\<lambda>row. if fw = cols then row else replicate cols (hd row))
               (if fh = rows then f else replicate rows (hd f)))
      else Inl ValueError)"

text \<open>Lines 62 and 65: a fresh black canvas, then the frame assigned to the slice.\<close>

definition place_frame :: "geometry \<Rightarrow> int \<Rightarrow> int \<Rightarrow> frame \<Rightarrow> py_exception + frame" where
  "place_frame g width height f =
     (case np_zeros (new_height g) (new_width g) of
        Inl e \<Rightarrow> Inl e
      | Inr canvas \<Rightarrow>
         (case slice_bounds (v_padding g) (v_padding g + height) (new_height g) of
            (r0, r1) \<Rightarrow>
           (case slice_bounds (h_padding g) (h_padding g + width) (new_width g) of
              (c0, c1) \<Rightarrow>
             (case broadcast_to (r1 - r0) (c1 - c0) f of
                Inl e \<Rightarrow> Inl e
              | Inr src \<Rightarrow>
                  Inr (take r0 canvas
                       @ map2 (\<lambda>row s. take c0 row @ s @ drop c1 row)
                           (take (r1 - r0) (drop r0 canvas)) src
                       @ drop r1 canvas)))))"

text \<open>
  What the specification asks of an emitted frame, written from its words: a canvas of
  \<open>new_height\<close> rows and \<open>new_width\<close> columns, zero everywhere except the region that
  starts at (\<open>v_padding\<close>, \<open>h_padding\<close>) and spans (\<open>height\<close>, \<open>width\<close>), which holds the
  source frame.
\<close>

definition letterboxed :: "geometry \<Rightarrow> int \<Rightarrow> int \<Rightarrow> frame \<Rightarrow> frame" where
  "letterboxed g width height f =
     map (\<lambda>i. map (\<lambda>j.
            if v_padding g \<le> int i \<and> int i < v_padding g + height
               \<and> h_padding g \<le> int j \<and> int j < h_padding g + width
            then f ! nat (int i - v_padding g) ! nat (int j - h_padding g)
            else black)
          [0 ..< nat (new_width g)])
       [0 ..< nat (new_height g)]"

subsection \<open>The run (lines 6 to 79)\<close>

text \<open>
  The capture is what \<open>cv2.VideoCapture(input_video)\<close> gave: whether it opened, its
  properties as line 21 to 24 read them (after \<open>int\<close>), and the frames its successive
  \<open>read()\<close> calls deliver before the first one that reports no frame.
\<close>

record capture =
  opened :: bool
  prop_frame_width :: int
  prop_frame_height :: int
  prop_fps :: rat
  prop_frame_count :: int
  stream :: "frame list"

datatype message =
    CouldNotOpen string
  | Converting
  | OriginalDimensions int int rat
  | NewDimensions int int rat
  | Progress pyfloat nat int
  | ConversionComplete string

text \<open>
  What the run does to the outside, in order: what it prints, the creation of the
  \<open>VideoWriter\<close> (line 46), each \<open>read()\<close> that delivers a frame and the one that
  reports none (line 57), each \<open>write\<close> (line 68), and the calls of \<open>release\<close> on the
  capture and on the writer (lines 77 and 78).
\<close>

datatype event =
    Print message
  | OpenWriter string rat int int
  | ReadFrame frame
  | ReadEnd
  | Write frame
  | ReleaseCapture
  | ReleaseWriter

text \<open>Line 73: \<open>(processed_frames / frame_count) * 100\<close>.\<close>

definition progress_percentage :: "nat \<Rightarrow> int \<Rightarrow> py_exception + pyfloat" where
  "progress_percentage processed frame_count =
     (case int_truediv (int processed) frame_count of
        Inl e \<Rightarrow> Inl e
      | Inr r \<Rightarrow> Inr (float_mul r 100))"

text \<open>
  The loop of lines 56 to 74, from \<open>processed\<close> frames done and the frames still to come.
  It gives the exception that ended it, if one did, and the events of the loop.
\<close>

fun frame_loop :: "geometry \<Rightarrow> int \<Rightarrow> int \<Rightarrow> int \<Rightarrow> nat \<Rightarrow> frame list
    \<Rightarrow> py_exception option \<times> event list" where
  "frame_loop g width height frame_count processed [] = (None, [ReadEnd])"
| "frame_loop g width height frame_count processed (f # rest) =
     (case place_frame g width height f of
        Inl e \<Rightarrow> (Some e, [ReadFrame f])
      | Inr canvas \<Rightarrow>
          if (processed + 1) mod 100 = 0 then
            (case progress_percentage (processed + 1) frame_count of
               Inl e \<Rightarrow> (Some e, [ReadFrame f, Write canvas])
             | Inr percentage \<Rightarrow>
                (case frame_loop g width height frame_count (processed + 1) rest of
                   (r, evs) \<Rightarrow>
                     (r, ReadFrame f # Write canvas
                         # Print (Progress percentage (processed + 1) frame_count) # evs)))
          else
            (case frame_loop g width height frame_count (processed + 1) rest of
               (r, evs) \<Rightarrow> (r, ReadFrame f # Write canvas # evs)))"

definition convert_to_16_9 ::
    "capture \<Rightarrow> string \<Rightarrow> string \<Rightarrow> unit outcome \<times> event list" where
  "convert_to_16_9 cap input_video output_video =
     (if \<not> opened cap then (Returned (), [Print (CouldNotOpen input_video)])
      else
        let width = prop_frame_width cap; height = prop_frame_height cap;
            frame_count = prop_frame_count cap in
        case int_truediv width height of
          Inl e \<Rightarrow> (Raised e, [])
        | Inr current_ratio \<Rightarrow>
           (case new_dimensions current_ratio width height of
              Inl e \<Rightarrow> (Raised e, [])
            | Inr g \<Rightarrow>
               let start = [OpenWriter output_video (prop_fps cap) (new_width g) (new_height g),
                            Print Converting,
                            Print (OriginalDimensions width height current_ratio)] in
               (case int_truediv (new_width g) (new_height g) of
                  Inl e \<Rightarrow> (Raised e, start)
                | Inr new_ratio \<Rightarrow>
                   (case frame_loop g width height frame_count 0 (stream cap) of
                      (Some e, evs) \<Rightarrow>
                        (Raised e,
                         start @ Print (NewDimensions (new_width g) (new_height g) new_ratio) # evs)
                    | (None, evs) \<Rightarrow>
                        (Returned (),
                         start @ Print (NewDimensions (new_width g) (new_height g) new_ratio) # evs
                         @ [ReleaseCapture, ReleaseWriter,
                            Print (ConversionComplete output_video)])))))"

text \<open>Projections of a run's events.\<close>

fun frames_read :: "event list \<Rightarrow> frame list" where
  "frames_read [] = []"
| "frames_read (ReadFrame f # evs) = f # frames_read evs"
| "frames_read (_ # evs) = frames_read evs"

fun frames_written :: "event list \<Rightarrow> frame list" where
  "frames_written [] = []"
| "frames_written (Write c # evs) = c # frames_written evs"
| "frames_written (_ # evs) = frames_written evs"

fun writer_opened :: "event list \<Rightarrow> bool" where
  "writer_opened [] = False"
| "writer_opened (OpenWriter p r w h # evs) = True"
| "writer_opened (_ # evs) = writer_opened evs"

fun count_event :: "event \<Rightarrow> event list \<Rightarrow> nat" where
  "count_event x [] = 0"
| "count_event x (e # evs) = (if e = x then 1 else 0) + count_event x evs"

section \<open>download_youtube.py\<close>

subsection \<open>The info dictionary\<close>










subsection \<open>format_size (lines 7 to 13)\<close>



subsection \<open>get_browser_cookie_path (lines 15 to 23)\<close>


subsection \<open>download_video (lines 25 to 123)\<close>















section \<open>Rounding to binary64\<close>

text \<open>
  \<open>ilog2\<close> is the binary exponent of a positive rational; with it \<open>fl\<close> is the
  rounding to 53 significant bits. It is exact on the integers below \<open>2 ^ 53\<close>, it
  never crosses one of them, its relative error is at most \<open>2 powi -53\<close>, and a value
  just below such an integer \<open>n\<close>, at \<open>n * (1 - 2 powi -54)\<close>, rounds to \<open>n\<close>.
\<close>

lemma of_int_bitlen_bounds:
  fixes p :: int
  assumes "0 < p"
  shows "(2::rat) powi (bitlen p - 1) \<le> of_int p" and "of_int p < (2::rat) powi (bitlen p)"
proof -
  have b: "2 ^ nat (bitlen p - 1) \<le> p" "p < 2 ^ nat (bitlen p)"
    using bitlen_bounds[OF assms] by auto
  have pos: "0 < bitlen p"
  proof (rule ccontr)
    assume "\<not> 0 < bitlen p"
    then have "nat (bitlen p) = 0" by simp
    with b(2) assms show False by simp
  qed
  have "(of_int (2 ^ nat (bitlen p - 1)) :: rat) \<le> of_int p" using b(1) by (rule iffD2[OF of_int_le_iff])
  then show "(2::rat) powi (bitlen p - 1) \<le> of_int p"
    using pos by (simp add: power_int_def)
  have "(of_int p :: rat) < of_int (2 ^ nat (bitlen p))" using b(2) by (rule iffD2[OF of_int_less_iff])
  then show "of_int p < (2::rat) powi (bitlen p)"
    using pos by (simp add: power_int_def)
qed

lemma ilog2_bounds:
  assumes "0 < x"
  shows "2 powi (ilog2 x) \<le> x" and "x < 2 powi (ilog2 x + 1)"
proof -
  obtain p q where pq: "quotient_of x = (p, q)" by (cases "quotient_of x")
  have q: "0 < q" using pq quotient_of_denom_pos by blast
  have x: "x = of_int p / of_int q" using pq by (rule quotient_of_div)
  have p: "0 < p" using assms q x by (simp add: zero_less_divide_iff)
  define c where "c = bitlen p - bitlen q"
  have "x < 2 powi (bitlen p) / 2 powi (bitlen q - 1)"
    unfolding x using of_int_bitlen_bounds[OF p] of_int_bitlen_bounds[OF q] p q
    by (intro frac_less) (auto simp: zero_less_power_int)
  also have "\<dots> = 2 powi (c + 1)"
    by (simp add: c_def power_int_diff power_int_add)
  finally have up: "x < 2 powi (c + 1)" .
  have "2 powi (bitlen p - 1) / 2 powi (bitlen q) \<le> x"
    unfolding x using of_int_bitlen_bounds[OF p] of_int_bitlen_bounds[OF q] p q
    by (intro frac_le) (auto simp: zero_le_power_int)
  moreover have "2 powi (bitlen p - 1) / 2 powi (bitlen q) = (2::rat) powi (c - 1)"
    by (simp add: c_def power_int_diff power_int_add)
  ultimately have lo: "2 powi (c - 1) \<le> x" by simp
  have e: "ilog2 x = (if 2 powi c \<le> x then c else c - 1)"
    by (simp add: ilog2_def pq c_def Let_def)
  show "2 powi (ilog2 x) \<le> x" using lo by (simp add: e)
  show "x < 2 powi (ilog2 x + 1)" using up by (auto simp: e)
qed

lemma powi2_less_imp: 
  assumes "(2::rat) powi a < 2 powi b" shows "a < b"
proof (rule ccontr)
  assume "\<not> a < b"
  then have "b \<le> a" by simp
  then have "(2::rat) powi b \<le> 2 powi a" by (intro power_int_increasing) auto
  with assms show False by simp
qed

lemma ilog2_unique:
  assumes "2 powi e \<le> x" "x < 2 powi (e + 1)"
  shows "ilog2 x = e"
proof -
  have pos: "0 < x" using assms(1) zero_less_power_int[of "2::rat" e] by linarith
  note b = ilog2_bounds[OF pos]
  have "(2::rat) powi e < 2 powi (ilog2 x + 1)" using assms(1) b(2) by linarith
  then have 1: "e < ilog2 x + 1" by (rule powi2_less_imp)
  have "(2::rat) powi (ilog2 x) < 2 powi (e + 1)" using assms(2) b(1) by linarith
  then have 2: "ilog2 x < e + 1" by (rule powi2_less_imp)
  from 1 2 show ?thesis by simp
qed


lemma rne_of_int: "rne (of_int m) = m"
  by (simp add: rne_def)

lemma rne_ge: "of_int m \<le> q \<Longrightarrow> m \<le> rne q"
proof -
  assume "of_int m \<le> q"
  then have "m \<le> \<lfloor>q\<rfloor>" by (simp add: le_floor_iff)
  then show ?thesis by (simp add: rne_def Let_def)
qed

lemma rne_le: 
  assumes "q \<le> of_int m" shows "rne q \<le> m"
proof (cases "q = of_int m")
  case True then show ?thesis by (simp add: rne_of_int)
next
  case False
  then have "q < of_int m" using assms by simp
  then have "\<lfloor>q\<rfloor> < m" by (simp add: floor_less_iff)
  then show ?thesis by (simp add: rne_def Let_def)
qed

lemma rne_err: "\<bar>of_int (rne q) - q\<bar> \<le> 1/2"
proof -
  have "of_int \<lfloor>q\<rfloor> \<le> q" "q < of_int \<lfloor>q\<rfloor> + 1" by linarith+
  then show ?thesis by (auto simp: rne_def Let_def)
qed

lemma rne_near:
  assumes "of_int m - 1/2 < q" "q < of_int m + 1/2"
  shows "rne q = m"
proof -
  have "\<bar>of_int (rne q) - q\<bar> \<le> 1/2" by (rule rne_err)
  then have "\<bar>(of_int (rne q) :: rat) - of_int m\<bar> < 1" using assms by linarith
  then have "\<bar>(of_int (rne q - m) :: rat)\<bar> < 1" by simp
  then have "\<bar>rne q - m\<bar> < 1" by (metis of_int_abs of_int_less_1_iff)
  then show ?thesis by simp
qed

lemma rne_tie_even:
  assumes "q = of_int m - 1/2" "even m"
  shows "rne q = m"
proof -
  have f: "\<lfloor>q\<rfloor> = m - 1" unfolding assms(1) by (simp add: floor_unique)
  have "q - of_int (m - 1) = 1/2" by (simp add: assms(1))
  then show ?thesis using assms(2) by (simp add: rne_def Let_def f)
qed

lemma fl_eq:
  assumes "2 powi e \<le> x" "x < 2 powi (e + 1)" "-1022 \<le> e"
  shows "fl x = of_int (rne (x / 2 powi (e - 52))) * 2 powi (e - 52)"
proof -
  have pos: "0 < x" using assms(1) zero_less_power_int[of "2::rat" e] by linarith
  have "ilog2 x = e" using assms(1,2) by (rule ilog2_unique)
  then show ?thesis using pos assms(3) by (simp add: fl_def fl_pos_def Let_def max_def)
qed


lemma powi_split: "(2::rat) powi e = 2 powi (e - 52) * 2 ^ 52"
proof -
  have "(2::rat) powi e = 2 powi ((e - 52) + 52)" by simp
  also have "\<dots> = 2 powi (e - 52) * 2 powi 52" by (subst power_int_add) auto
  finally show ?thesis by simp
qed

lemma fl_rel_err:
  assumes "2 powi (-1022) \<le> x"
  shows "\<bar>fl x - x\<bar> \<le> x / 2 ^ 53"
proof -
  have pos: "0 < x" using assms zero_less_power_int[of "2::rat" "-1022"] by linarith
  define e where "e = ilog2 x"
  have b: "2 powi e \<le> x" "x < 2 powi (e + 1)" unfolding e_def using ilog2_bounds[OF pos] by auto
  have "(2::rat) powi (-1022) < 2 powi (e + 1)" using assms b(2) by linarith
  then have e: "-1022 \<le> e" using powi2_less_imp by fastforce
  define u :: rat where "u = 2 powi (e - 52)"
  have u: "0 < u" by (simp add: u_def zero_less_power_int)
  define q where "q = x / u"
  have x: "x = q * u" using u by (simp add: q_def)
  have "2 powi e = u * 2 ^ 52" unfolding u_def by (rule powi_split)
  then have "u * 2 ^ 52 \<le> q * u" using b(1) x by simp
  then have q: "2 ^ 52 \<le> q" using u by simp
  have "fl x = of_int (rne q) * u" unfolding q_def u_def using b e by (rule fl_eq)
  then have "\<bar>fl x - x\<bar> = \<bar>of_int (rne q) - q\<bar> * u"
    using u by (simp add: x abs_mult left_diff_distrib[symmetric])
  also have "\<dots> \<le> (1/2) * u" using rne_err[of q] u by (intro mult_right_mono) auto
  also have "\<dots> \<le> (q / 2 ^ 53) * u" using q u by (intro mult_right_mono) auto
  also have "\<dots> = x / 2 ^ 53" by (simp add: x)
  finally show ?thesis .
qed

lemma fl_int_lower:
  assumes "0 < n" "n < 2 ^ 53" "of_int n \<le> x"
  shows "of_int n \<le> fl x"
proof -
  have n1: "(1::rat) \<le> of_int n" using assms(1) by simp
  have pos: "0 < x" using assms(3) n1 by linarith
  define e where "e = ilog2 x"
  have b: "2 powi e \<le> x" "x < 2 powi (e + 1)" unfolding e_def using ilog2_bounds[OF pos] by auto
  have "(2::rat) powi 0 < 2 powi (e + 1)" using assms(3) n1 b(2) by simp
  then have e0: "0 \<le> e" using powi2_less_imp by fastforce
  then have e: "-1022 \<le> e" by simp
  define u :: rat where "u = 2 powi (e - 52)"
  have u: "0 < u" by (simp add: u_def zero_less_power_int)
  have f: "fl x = of_int (rne (x / u)) * u" unfolding u_def using b e by (rule fl_eq)
  have pe: "2 powi e = u * 2 ^ 52" unfolding u_def by (rule powi_split)
  show ?thesis
  proof (cases "53 \<le> e")
    case True
    have "u * 2 ^ 52 \<le> x" using b(1) pe by simp
    then have "of_int (2 ^ 52) \<le> x / u" using u by (simp add: pos_le_divide_eq mult.commute)
    then have "2 ^ 52 \<le> rne (x / u)" by (rule rne_ge)
    then have "(of_int (2 ^ 52) :: rat) \<le> of_int (rne (x / u))" by (rule iffD2[OF of_int_le_iff])
    then have "2 ^ 52 * u \<le> fl x" unfolding f using u by (intro mult_right_mono) auto
    moreover have "(2::rat) powi 53 \<le> 2 powi e" using True by (intro power_int_increasing) auto
    moreover have "(of_int n :: rat) < of_int (2 ^ 53)" using assms(2) by (rule iffD2[OF of_int_less_iff])
    ultimately show ?thesis using pe by (simp add: mult.commute)
  next
    case False
    define k where "k = nat (52 - e)"
    have "u = 2 powi (- int k)" using False by (simp add: u_def k_def)
    then have uk: "u = 1 / 2 ^ k" by (simp add: power_int_minus_divide)
    have "of_int (n * 2 ^ k) \<le> x / u" using assms(3) by (simp add: uk)
    then have "n * 2 ^ k \<le> rne (x / u)" by (rule rne_ge)
    then have "(of_int (n * 2 ^ k) :: rat) \<le> of_int (rne (x / u))" by (rule iffD2[OF of_int_le_iff])
    then show ?thesis unfolding f by (simp add: uk pos_le_divide_eq)
  qed
qed

lemma fl_int_upper:
  assumes "0 < x" "x \<le> of_int n" "n < 2 ^ 53"
  shows "fl x \<le> of_int n"
proof -
  define e where "e = max (ilog2 x) (-1022)"
  have b: "2 powi (ilog2 x) \<le> x" using ilog2_bounds[OF assms(1)] by auto
  have "(of_int n :: rat) < of_int (2 ^ 53)" using assms(3) by (rule iffD2[OF of_int_less_iff])
  then have "(2::rat) powi (ilog2 x) < 2 powi 53" using b assms(2) by simp
  then have "ilog2 x < 53" by (rule powi2_less_imp)
  then have e: "e \<le> 52" by (simp add: e_def)
  define u :: rat where "u = 2 powi (e - 52)"
  have f: "fl x = of_int (rne (x / u)) * u"
    using assms(1) by (simp add: fl_def fl_pos_def Let_def u_def e_def)
  define k where "k = nat (52 - e)"
  have "u = 2 powi (- int k)" using e by (simp add: u_def k_def)
  then have uk: "u = 1 / 2 ^ k" by (simp add: power_int_minus_divide)
  have "x / u \<le> of_int (n * 2 ^ k)" using assms(2) by (simp add: uk)
  then have "rne (x / u) \<le> n * 2 ^ k" by (rule rne_le)
  then have "(of_int (rne (x / u)) :: rat) \<le> of_int (n * 2 ^ k)" by (rule iffD2[OF of_int_le_iff])
  then show ?thesis unfolding f by (simp add: uk pos_divide_le_eq)
qed

lemma fl_of_int:
  assumes "0 < n" "n < 2 ^ 53"
  shows "fl (of_int n) = of_int n"
proof (rule antisym)
  show "fl (of_int n) \<le> of_int n" using assms by (intro fl_int_upper) auto
  show "of_int n \<le> fl (of_int n)" using assms by (intro fl_int_lower) auto
qed


lemma fl_below_int:
  assumes "0 < n" "n < 2 ^ 53"
  shows "fl (of_int n * (1 - 1 / 2 ^ 54)) = of_int n"
proof -
  define x :: rat where "x = of_int n * (1 - 1 / 2 ^ 54)"
  have n1: "(1::rat) \<le> of_int n" using assms(1) by simp
  have npos: "(0::rat) < of_int n" using assms(1) by simp
  define E where "E = ilog2 (of_int n)"
  have b: "2 powi E \<le> (of_int n :: rat)" "(of_int n :: rat) < 2 powi (E + 1)"
    unfolding E_def using ilog2_bounds[OF npos] by auto
  have "(2::rat) powi 0 < 2 powi (E + 1)" using n1 b(2) by simp
  then have E0: "0 \<le> E" using powi2_less_imp by fastforce
  have nlt: "(of_int n :: rat) < of_int (2 ^ 53)" using assms(2) by (rule iffD2[OF of_int_less_iff])
  then have "(2::rat) powi E < 2 powi 53" using b(1) by simp
  then have E52: "E \<le> 52" using powi2_less_imp by fastforce
  define k where "k = nat (52 - E)"
  define u :: rat where "u = 2 powi (E - 52)"
  have "u = 2 powi (- int k)" using E52 by (simp add: u_def k_def)
  then have uk: "u = 1 / 2 ^ k" by (simp add: power_int_minus_divide)
  have u: "0 < u" by (simp add: uk)
  define M where "M = n * 2 ^ k"
  have nM: "(of_int n :: rat) = of_int M * u" by (simp add: M_def uk)
  have pe: "2 powi E = u * 2 ^ 52" unfolding u_def by (rule powi_split)
  have pe1: "2 powi (E + 1) = u * 2 ^ 53"
  proof -
    have "(2::rat) powi (E + 1) = 2 powi E * 2" by (subst power_int_add) auto
    then show ?thesis by (simp add: pe)
  qed
  have "u * 2 ^ 52 \<le> of_int M * u" using b(1) pe nM by simp
  then have "(of_int (2 ^ 52) :: rat) \<le> of_int M" using u by simp
  then have Mlo: "2 ^ 52 \<le> M" by (rule iffD1[OF of_int_le_iff])
  have "of_int M * u < u * 2 ^ 53" using b(2) pe1 nM by simp
  then have "(of_int M :: rat) < of_int (2 ^ 53)" using u by simp
  then have Mhi: "M < 2 ^ 53" by (rule iffD1[OF of_int_less_iff])
  have xM: "x = (of_int M - of_int M / 2 ^ 54) * u" by (simp add: x_def nM algebra_simps)
  have Mhi': "(of_int M :: rat) < 2 ^ 53" using Mhi by (metis of_int_less_iff of_int_numeral of_int_power)
  have Mlo': "(2 ^ 52 :: rat) \<le> of_int M" using Mlo by (metis of_int_le_iff of_int_numeral of_int_power)
  have "fl x = of_int n"
  proof (cases "M = 2 ^ 52")
    case True
    have xq: "x = (2 ^ 53 - 1 / 2) * (u / 2)" by (simp add: xM True)
    have u2: "u / 2 = 2 powi (E - 1 - 52)"
    proof -
      have "(2::rat) powi (E - 52) = 2 powi ((E - 1 - 52) + 1)" by simp
      also have "\<dots> = 2 powi (E - 1 - 52) * 2" by (subst power_int_add) auto
      finally show ?thesis by (simp add: u_def)
    qed
    have lo: "2 powi (E - 1) \<le> x"
    proof -
      have "(2::rat) powi (E - 1) = 2 powi (E - 1 - 52) * 2 ^ 52" by (rule powi_split)
      also have "\<dots> = 2 ^ 52 * (u / 2)" by (simp add: u2)
      also have "\<dots> \<le> (2 ^ 53 - 1 / 2) * (u / 2)" using u by (intro mult_right_mono) auto
      finally show ?thesis by (simp add: xq)
    qed
    have hi: "x < 2 powi (E - 1 + 1)"
    proof -
      have "x < 2 ^ 53 * (u / 2)" unfolding xq using u by (intro mult_strict_right_mono) auto
      also have "\<dots> = 2 powi E" by (simp add: pe)
      finally show ?thesis by simp
    qed
    have A: "fl x = of_int (rne (x / 2 powi (E - 1 - 52))) * 2 powi (E - 1 - 52)"
      using lo hi E0 by (intro fl_eq) auto
    have B: "x / (u / 2) = of_int (2 ^ 53) - 1 / 2"
      using u by (simp add: xq)
    have C: "rne (of_int (2 ^ 53) - 1 / 2) = 2 ^ 53" by (rule rne_tie_even) auto
    have "fl x = of_int (2 ^ 53) * (u / 2)"
      using A unfolding u2[symmetric] by (simp only: B C)
    then show ?thesis by (simp add: nM True)
  next
    case False
    then have M1: "2 ^ 52 + 1 \<le> M" using Mlo by simp
    then have "(of_int (2 ^ 52 + 1) :: rat) \<le> of_int M" by (rule iffD2[OF of_int_le_iff])
    then have M1': "(2 ^ 52 + 1 :: rat) \<le> of_int M" by simp
    define q :: rat where "q = of_int M - of_int M / 2 ^ 54"
    have q1: "of_int M - 1 / 2 < q" using Mhi' by (simp add: q_def)
    have q2: "q < of_int M + 1 / 2" using Mlo' by (simp add: q_def)
    have q3: "q < of_int M" using Mlo' by (simp add: q_def)
    have rq: "rne q = M" using q1 q2 by (rule rne_near)
    have xq: "x = q * u" by (simp add: xM q_def)
    have lo: "2 powi E \<le> x"
    proof -
      have "2 ^ 52 \<le> q" using q1 M1' by linarith
      then have "2 ^ 52 * u \<le> q * u" using u by (intro mult_right_mono) auto
      then show ?thesis by (simp add: pe xq mult.commute)
    qed
    have hi: "x < 2 powi (E + 1)"
    proof -
      have "q * u < of_int M * u" using q3 u by (intro mult_strict_right_mono) auto
      then show ?thesis using b(2) by (simp add: xq nM)
    qed
    have "fl x = of_int (rne (x / 2 powi (E - 52))) * 2 powi (E - 52)"
      using lo hi E0 by (intro fl_eq) auto
    moreover have "x / 2 powi (E - 52) = q" using u by (simp add: xq u_def[symmetric])
    ultimately show ?thesis by (simp add: rq nM u_def)
  qed
  then show ?thesis by (simp add: x_def)
qed

lemma target_ratio_val: "target_ratio = 16 / 9 * (1 - 1 / 2 ^ 54)"
  unfolding target_ratio_def by code_simp

lemma fl_err_bounds:
  assumes "2 powi (-1022) \<le> x"
  shows "fl x \<le> x + x / 9007199254740992" and "x - x / 9007199254740992 \<le> fl x"
proof -
  have p: "(2::rat) ^ 53 = 9007199254740992" by simp
  have e: "\<bar>fl x - x\<bar> \<le> x / 2 ^ 53" using assms by (rule fl_rel_err)
  show "fl x \<le> x + x / 9007199254740992" using e unfolding p by linarith
  show "x - x / 9007199254740992 \<le> fl x" using e unfolding p by linarith
qed

lemma fl_floor:
  assumes "0 < n" "n < 2 ^ 52" "of_int n \<le> x" "x + x / 2 ^ 53 < of_int n + 1"
  shows "\<lfloor>fl x\<rfloor> = n" and "round_result x = Fin (fl x)" and "0 \<le> fl x"
proof -
  have n53: "n < 2 ^ 53" using assms(2) by simp
  have lo: "of_int n \<le> fl x" using assms(1) n53 assms(3) by (rule fl_int_lower)
  have n1: "(1::rat) \<le> of_int n" using assms(1) by simp
  have "(2::rat) powi (-1022) \<le> 2 powi 0" by (intro power_int_increasing) auto
  then have "2 powi (-1022) \<le> x" using n1 assms(3) by simp
  then have "\<bar>fl x - x\<bar> \<le> x / 2 ^ 53" by (rule fl_rel_err)
  then have hi: "fl x < of_int n + 1" using assms(4) by linarith
  show "\<lfloor>fl x\<rfloor> = n" using lo hi by (simp add: floor_unique)
  show "0 \<le> fl x" using lo n1 by linarith
  have "(of_int n :: rat) < of_int (2 ^ 52)" using assms(2) by (rule iffD2[OF of_int_less_iff])
  then have "fl x < 2 ^ 52 + 1" using hi by simp
  moreover have "(2::rat) ^ 52 + 1 \<le> 2 ^ 1024" by simp
  ultimately have "fl x < 2 ^ 1024" by linarith
  moreover have "- ((2::rat) ^ 1024) < 0" by simp
  ultimately show "round_result x = Fin (fl x)" using \<open>0 \<le> fl x\<close>
    by (simp add: round_result_def Let_def)
qed

section \<open>The floating-point operations of lines 27 to 42\<close>

text \<open>
  For widths and heights below \<open>2 ^ 31\<close> no operation overflows, the comparison of
  line 31 decides \<open>9 * width < 16 * height\<close>, and the two conversions of lines 33 and
  40 give the exact integer parts \<open>16 * height div 9\<close> and \<open>9 * width div 16\<close>.
\<close>

lemma of_int_bound31:
  fixes n :: int assumes "0 < n" "n < 2 ^ 31"
  shows "(1::rat) \<le> of_int n" and "(of_int n :: rat) < 2 ^ 31"
proof -
  show "(1::rat) \<le> of_int n" using assms(1) by simp
  have "(of_int n :: rat) < of_int (2 ^ 31)" using assms(2) by (rule iffD2[OF of_int_less_iff])
  then show "(of_int n :: rat) < 2 ^ 31" by simp
qed

lemma of_int_bound40:
  fixes n :: int assumes "0 < n" "n < 2 ^ 40"
  shows "(1::rat) \<le> of_int n" and "(of_int n :: rat) < 2 ^ 40"
proof -
  show "(1::rat) \<le> of_int n" using assms(1) by simp
  have "(of_int n :: rat) < of_int (2 ^ 40)" using assms(2) by (rule iffD2[OF of_int_less_iff])
  then show "(of_int n :: rat) < 2 ^ 40" by simp
qed

lemma ratio_range:
  fixes a b :: int
  assumes "0 < a" "a < 2 ^ 40" "0 < b" "b < 2 ^ 40"
  shows "1 / 2 ^ 40 < (of_int a / of_int b :: rat)" and "(of_int a / of_int b :: rat) < 2 ^ 40"
    and "0 < (of_int a / of_int b :: rat)"
proof -
  note A = of_int_bound40[OF assms(1,2)] and B = of_int_bound40[OF assms(3,4)]
  have bpos: "(0::rat) < of_int b" using B(1) by linarith
  have apos: "(0::rat) < of_int a" using A(1) by linarith
  have "(2::rat) ^ 40 * 1 \<le> 2 ^ 40 * of_int a" using A(1) by (intro mult_left_mono) auto
  then have "(of_int b :: rat) < of_int a * 2 ^ 40" using B(2) by (simp add: mult.commute)
  then show "1 / 2 ^ 40 < (of_int a / of_int b :: rat)" using bpos
    by (simp add: pos_less_divide_eq pos_divide_less_eq)
  have "(2::rat) ^ 40 * 1 \<le> 2 ^ 40 * of_int b" using B(1) by (intro mult_left_mono) auto
  then have "(of_int a :: rat) < 2 ^ 40 * of_int b" using A(2) by simp
  then show "(of_int a / of_int b :: rat) < 2 ^ 40" using bpos
    by (simp add: pos_divide_less_eq)
  show "0 < (of_int a / of_int b :: rat)" using bpos apos by simp
qed

lemma fl_ratio_err:
  fixes a b :: int
  assumes "0 < a" "a < 2 ^ 40" "0 < b" "b < 2 ^ 40"
  shows "fl (of_int a / of_int b) \<le> of_int a / of_int b + (of_int a / of_int b) / 9007199254740992"
    and "of_int a / of_int b - (of_int a / of_int b) / 9007199254740992 \<le> fl (of_int a / of_int b)"
proof -
  have "(2::rat) powi (-1022) \<le> 2 powi (-40)" by (intro power_int_increasing) auto
  also have "\<dots> = 1 / 2 ^ 40" by (simp add: power_int_minus_divide)
  finally have r: "2 powi (-1022) \<le> (of_int a / of_int b :: rat)"
    using ratio_range(1)[OF assms] by linarith
  show "fl (of_int a / of_int b) \<le> of_int a / of_int b + (of_int a / of_int b) / 9007199254740992"
    using r by (rule fl_err_bounds)
  show "of_int a / of_int b - (of_int a / of_int b) / 9007199254740992 \<le> fl (of_int a / of_int b)"
    using r by (rule fl_err_bounds)
qed

lemma int_truediv_ok:
  fixes a b :: int
  assumes "0 < a" "a < 2 ^ 40" "0 < b" "b < 2 ^ 40"
  shows "int_truediv a b = Inr (fl (of_int a / of_int b))"
proof -
  define x :: rat where "x = of_int a / of_int b"
  have e: "fl x \<le> x + x / 9007199254740992" "x - x / 9007199254740992 \<le> fl x"
    unfolding x_def using fl_ratio_err[OF assms] by blast+
  have r: "0 < x" "x < 2 ^ 40" unfolding x_def using ratio_range[OF assms] by blast+
  have "0 \<le> fl x" using e r by linarith
  moreover have "fl x < 2 ^ 41" using e r by simp
  moreover have "(2::rat) ^ 41 \<le> 2 ^ 1024" by simp
  ultimately have "\<not> overflows (fl x)" by (simp add: overflows_def)
  then show ?thesis using assms(3) by (simp add: int_truediv_def Let_def x_def)
qed

lemma current_ratio_ok:
  fixes w h :: int
  assumes "0 < w" "w < 2 ^ 31" "0 < h" "h < 2 ^ 31"
  shows "int_truediv w h = Inr (fl (of_int w / of_int h))"
  using assms by (intro int_truediv_ok) auto

lemma branch_iff:
  fixes w h :: int
  assumes "0 < w" "w < 2 ^ 31" "0 < h" "h < 2 ^ 31"
  shows "fl (of_int w / of_int h) < target_ratio \<longleftrightarrow> 9 * w < 16 * h"
proof -
  define x :: rat where "x = of_int w / of_int h"
  note W = of_int_bound31[OF assms(1,2)] and H = of_int_bound31[OF assms(3,4)]
  have hpos: "(0::rat) < of_int h" using H(1) by linarith
  have w40: "w < 2 ^ 40" and h40: "h < 2 ^ 40" using assms(2,4) by simp_all
  have e: "fl x \<le> x + x / 9007199254740992" "x - x / 9007199254740992 \<le> fl x"
    unfolding x_def using fl_ratio_err[OF assms(1) w40 assms(3) h40] by blast+
  have r: "0 < x" unfolding x_def using ratio_range[OF assms(1) w40 assms(3) h40] by blast
  have xh: "x * of_int h = of_int w" using hpos by (simp add: x_def)
  have inv: "1 / 2 ^ 31 < 1 / (of_int h :: rat)" using H(2) hpos by (simp add: frac_less2)
  consider "9 * w < 16 * h" | "9 * w = 16 * h" | "16 * h < 9 * w" by linarith
  then show ?thesis
  proof cases
    case 1
    then have "9 * w + 1 \<le> 16 * h" by simp
    then have "(of_int (9 * w + 1) :: rat) \<le> of_int (16 * h)" by (rule iffD2[OF of_int_le_iff])
    then have "9 * (x * of_int h) + 1 \<le> 16 * of_int h" by (simp add: xh)
    then have "(9 * x + 1 / of_int h) * of_int h \<le> 16 * of_int h" using hpos by (simp add: algebra_simps)
    then have "9 * x + 1 / of_int h \<le> 16" using hpos by simp
    then have "9 * x + 1 / 2 ^ 31 < 16" using inv by linarith
    then have "fl x < target_ratio" using e r unfolding target_ratio_val by simp
    then show ?thesis using 1 by (simp add: x_def)
  next
    case 2
    then have "(of_int (9 * w) :: rat) = of_int (16 * h)" by simp
    then have "9 * (x * of_int h) = 16 * of_int h" by (simp add: xh)
    then have "x = 16 / 9" using hpos by simp
    then have "fl x = target_ratio" unfolding target_ratio_def by (rule arg_cong)
    then show ?thesis using 2 by (simp add: x_def)
  next
    case 3
    then have "16 * h + 1 \<le> 9 * w" by simp
    then have "(of_int (16 * h + 1) :: rat) \<le> of_int (9 * w)" by (rule iffD2[OF of_int_le_iff])
    then have "16 * of_int h + 1 \<le> 9 * (x * of_int h)" by (simp add: xh)
    then have "(16 + 1 / of_int h) * of_int h \<le> (9 * x) * of_int h" using hpos by (simp add: algebra_simps)
    then have "16 + 1 / of_int h \<le> 9 * x" using hpos by simp
    then have "16 + 1 / 2 ^ 31 < 9 * x" using inv by linarith
    then have "target_ratio < fl x" using e r unfolding target_ratio_val by simp
    then show ?thesis using 3 by (simp add: x_def)
  qed
qed

lemma float_of_int_exact:
  fixes n :: int assumes "0 < n" "n < 2 ^ 31"
  shows "float_of_int n = Inr (of_int n)"
proof -
  have "n < 2 ^ 53" using assms(2) by simp
  then have f: "fl (of_int n) = of_int n" using assms(1) by (intro fl_of_int)
  note N = of_int_bound31[OF assms]
  have "(2::rat) ^ 31 \<le> 2 ^ 1024" by simp
  then have "\<not> overflows (of_int n)" using N by (simp add: overflows_def)
  then show ?thesis by (simp add: float_of_int_def f)
qed

lemma py_int_floor:
  assumes "\<lfloor>fl x\<rfloor> = n" "round_result x = Fin (fl x)" "0 \<le> fl x"
  shows "py_int (round_result x) = Inr n"
  using assms by simp

lemma narrow_width:
  fixes h :: int assumes "0 < h" "h < 2 ^ 31"
  shows "py_int (float_mul (of_int h) target_ratio) = Inr (16 * h div 9)"
proof -
  define n where "n = 16 * h div 9"
  define r where "r = 16 * h mod 9"
  have nr: "16 * h = 9 * n + r" by (simp add: n_def r_def)
  have r: "0 \<le> r" "r \<le> 8" by (simp_all add: r_def)
  have npos: "0 < n" using assms(1) unfolding n_def by presburger
  have n35: "n < 2 ^ 35" using assms(2) unfolding n_def by simp
  then have n52: "n < 2 ^ 52" and n53: "n < 2 ^ 53" by simp_all
  note H = of_int_bound31[OF assms]
  define y :: rat where "y = of_int h * 16 / 9"
  have "(of_int (16 * h) :: rat) = of_int (9 * n + r)" using nr by simp
  then have y9: "9 * y = 9 * of_int n + of_int r" by (simp add: y_def)
  define x :: rat where "x = of_int h * target_ratio"
  have xy: "x = y - y / 18014398509481984" by (simp add: x_def y_def target_ratio_val)
  have ylt: "y < 2 ^ 32" using H by (simp add: y_def)
  have "py_int (round_result x) = Inr n"
  proof (cases "r = 0")
    case True
    then have "y = of_int n" using y9 by simp
    then have "x = of_int n * (1 - 1 / 2 ^ 54)" by (simp add: xy algebra_simps)
    then have f: "fl x = of_int n" using fl_below_int[OF npos n53] by (simp only:)
    have "(of_int n :: rat) < of_int (2 ^ 35)" using n35 by (rule iffD2[OF of_int_less_iff])
    moreover have "(2::rat) ^ 35 \<le> 2 ^ 1024" by simp
    ultimately have "(of_int n :: rat) < 2 ^ 1024" by simp
    moreover have "(0::rat) < of_int n" using npos by simp
    moreover have "- ((2::rat) ^ 1024) < 0" by simp
    ultimately have "round_result x = Fin (of_int n)"
      unfolding round_result_def Let_def f by (simp del: of_int_less_numeral_power_cancel_iff)
    then show ?thesis using npos by simp
  next
    case False
    then have "1 \<le> r" using r(1) by simp
    then have r1: "(1::rat) \<le> of_int r" by simp
    have "(of_int r :: rat) \<le> of_int 8" using r(2) by (rule iffD2[OF of_int_le_iff])
    then have r8: "(of_int r :: rat) \<le> 8" by simp
    have lo: "of_int n \<le> x" using y9 r1 ylt unfolding xy by simp
    have hi: "x + x / 2 ^ 53 < of_int n + 1" using y9 r8 ylt unfolding xy by simp
    show ?thesis using fl_floor[OF npos n52 lo hi] by (intro py_int_floor)
  qed
  then show ?thesis by (simp add: float_mul_def x_def n_def)
qed

lemma wide_height:
  fixes w :: int assumes "0 < w" "w < 2 ^ 31" "16 \<le> 9 * w"
  shows "float_div (of_int w) target_ratio = Inr (round_result (of_int w / target_ratio))"
    and "py_int (round_result (of_int w / target_ratio)) = Inr (9 * w div 16)"
proof -
  have "target_ratio \<noteq> 0" by (simp add: target_ratio_val)
  then show "float_div (of_int w) target_ratio = Inr (round_result (of_int w / target_ratio))"
    by (simp add: float_div_def)
  define n where "n = 9 * w div 16"
  define r where "r = 9 * w mod 16"
  have nr: "9 * w = 16 * n + r" by (simp add: n_def r_def)
  have r: "0 \<le> r" "r \<le> 15" by (simp_all add: r_def)
  have npos: "0 < n" using assms(3) unfolding n_def by presburger
  have n35: "n < 2 ^ 35" using assms(2) unfolding n_def by simp
  then have n52: "n < 2 ^ 52" by simp
  note W = of_int_bound31[OF assms(1,2)]
  define y :: rat where "y = of_int w * 9 / 16"
  have "(of_int (9 * w) :: rat) = of_int (16 * n + r)" using nr by simp
  then have y16: "16 * y = 16 * of_int n + of_int r" by (simp add: y_def)
  define x :: rat where "x = of_int w / target_ratio"
  have xy: "x = y + y / 18014398509481983" by (simp add: x_def y_def target_ratio_val)
  have ylt: "y < 2 ^ 31" using W by (simp add: y_def)
  have ypos: "0 < y" using W by (simp add: y_def)
  have r0: "(0::rat) \<le> of_int r" using r(1) by simp
  have "(of_int r :: rat) \<le> of_int 15" using r(2) by (rule iffD2[OF of_int_le_iff])
  then have r15: "(of_int r :: rat) \<le> 15" by simp
  have lo: "of_int n \<le> x" using y16 r0 ypos unfolding xy by simp
  have hi: "x + x / 2 ^ 53 < of_int n + 1" using y16 r15 ylt ypos unfolding xy by simp
  have "py_int (round_result x) = Inr n" using fl_floor[OF npos n52 lo hi] by (intro py_int_floor)
  then show "py_int (round_result (of_int w / target_ratio)) = Inr (9 * w div 16)"
    by (simp add: x_def n_def)
qed

lemma target_geometry_eq:
  fixes w h :: int
  assumes "0 < w" "w < 2 ^ 31" "0 < h" "h < 2 ^ 31"
  shows "target_geometry w h =
     Inr (if 9 * w < 16 * h
          then \<lparr>new_width = 16 * h div 9, new_height = h,
                h_padding = (16 * h div 9 - w) div 2, v_padding = 0\<rparr>
          else \<lparr>new_width = w, new_height = 9 * w div 16,
                h_padding = 0, v_padding = (9 * w div 16 - h) div 2\<rparr>)"
proof (cases "9 * w < 16 * h")
  case True
  then have b: "fl (of_int w / of_int h) < target_ratio" using branch_iff[OF assms] by simp
  show ?thesis
    using True b
    by (simp add: target_geometry_def current_ratio_ok[OF assms] new_dimensions_def
        float_of_int_exact[OF assms(3,4)] narrow_width[OF assms(3,4)])
next
  case False
  then have b: "\<not> fl (of_int w / of_int h) < target_ratio" using branch_iff[OF assms] by simp
  have w16: "16 \<le> 9 * w" using False assms(3) by linarith
  show ?thesis
    using False b
    by (simp add: target_geometry_def current_ratio_ok[OF assms] new_dimensions_def
        float_of_int_exact[OF assms(1,2)] wide_height[OF assms(1,2) w16])
qed

section \<open>The canvas\<close>

text \<open>
  When the frame fits, line 65 gives the canvas that \<open>letterboxed\<close> describes.
\<close>

lemma padded_row_nth:
  assumes "length s = W" "C0 + W \<le> NW" "j < NW"
  shows "(replicate C0 b @ s @ replicate (NW - (C0 + W)) b) ! j =
         (if C0 \<le> j \<and> j < C0 + W then s ! (j - C0) else b)"
  using assms by (auto simp: nth_append)

lemma padded_row_eq:
  assumes "length s = W" "C0 + W \<le> NW"
  shows "replicate C0 b @ s @ replicate (NW - (C0 + W)) b =
         map (\<lambda>j. if C0 \<le> j \<and> j < C0 + W then s ! (j - C0) else b) [0 ..< NW]"
proof (rule nth_equalityI)
  show "length (replicate C0 b @ s @ replicate (NW - (C0 + W)) b) =
        length (map (\<lambda>j. if C0 \<le> j \<and> j < C0 + W then s ! (j - C0) else b) [0 ..< NW])"
    using assms by simp
next
  fix j assume "j < length (replicate C0 b @ s @ replicate (NW - (C0 + W)) b)"
  then have j: "j < NW" using assms by simp
  show "(replicate C0 b @ s @ replicate (NW - (C0 + W)) b) ! j =
        map (\<lambda>j. if C0 \<le> j \<and> j < C0 + W then s ! (j - C0) else b) [0 ..< NW] ! j"
    using padded_row_nth[OF assms j] j by simp
qed

lemma blank_row_eq:
  "replicate NW b = map (\<lambda>j. b) [0 ..< NW]"
  by (simp add: map_replicate_const)

lemma boxed_rows:
  assumes "R0 + length f \<le> NH" "C0 + W \<le> NW" "list_all (\<lambda>row. length row = W) f"
  shows "replicate R0 (replicate NW b)
         @ map (\<lambda>s. replicate C0 b @ s @ replicate (NW - (C0 + W)) b) f
         @ replicate (NH - (R0 + length f)) (replicate NW b) =
         map (\<lambda>i. map (\<lambda>j. if R0 \<le> i \<and> i < R0 + length f \<and> C0 \<le> j \<and> j < C0 + W
                             then f ! (i - R0) ! (j - C0) else b) [0 ..< NW]) [0 ..< NH]"
    (is "?L = ?R")
proof (rule nth_equalityI)
  show "length ?L = length ?R" using assms(1) by simp
next
  fix i assume "i < length ?L"
  then have i: "i < NH" using assms(1) by simp
  consider "i < R0" | "R0 \<le> i" "i < R0 + length f" | "R0 + length f \<le> i" by linarith
  then show "?L ! i = ?R ! i"
  proof cases
    case 1
    then have "?L ! i = replicate NW b" by (simp add: nth_append)
    moreover have "?R ! i = map (\<lambda>j. b) [0 ..< NW]" using 1 i by simp
    ultimately show ?thesis by (simp add: blank_row_eq)
  next
    case 2
    then have k: "i - R0 < length f" by linarith
    then have len: "length (f ! (i - R0)) = W" using assms(3) by (simp add: list_all_length)
    have "?L ! i = replicate C0 b @ f ! (i - R0) @ replicate (NW - (C0 + W)) b"
      using 2 k by (simp add: nth_append)
    also have "\<dots> = map (\<lambda>j. if C0 \<le> j \<and> j < C0 + W then f ! (i - R0) ! (j - C0) else b) [0 ..< NW]"
      using len assms(2) by (rule padded_row_eq)
    also have "\<dots> = ?R ! i" using 2 i by simp
    finally show ?thesis .
  next
    case 3
    then have "\<not> i < R0" "\<not> i - R0 < length f" "i - R0 - length f < NH - (R0 + length f)"
      using i by linarith+
    then have "?L ! i = replicate NW b" by (simp add: nth_append)
    moreover have "?R ! i = map (\<lambda>j. b) [0 ..< NW]" using 3 i by simp
    ultimately show ?thesis by (simp add: blank_row_eq)
  qed
qed

lemma map2_replicate_left:
  "map2 F (replicate (length ys) z) ys = map (F z) ys"
  by (induction ys) simp_all

lemma slice_bounds_inside:
  assumes "0 \<le> a" "0 \<le> k" "a + k \<le> n"
  shows "slice_bounds a (a + k) n = (nat a, nat a + nat k)"
  using assms by (simp add: slice_bounds_def Let_def nat_add_distrib)

lemma broadcast_to_same:
  assumes "length f = R" "list_all (\<lambda>row. length row = C) f" "0 < R"
  shows "broadcast_to R C f = Inr f"
proof -
  obtain row rest where f: "f = row # rest" using assms(1,3) by (cases f) auto
  then have "length row = C" using assms(2) by simp
  then show ?thesis using assms(1) by (simp add: broadcast_to_def f map_idI)
qed

lemma place_frame_letterboxed:
  assumes "0 \<le> v_padding g" "v_padding g + h \<le> new_height g"
    and "0 \<le> h_padding g" "h_padding g + w \<le> new_width g"
    and "0 < h" "0 < w" "is_frame h w f"
  shows "place_frame g w h f = Inr (letterboxed g w h f)"
proof -
  define R0 where "R0 = nat (v_padding g)"
  define C0 where "C0 = nat (h_padding g)"
  define NH where "NH = nat (new_height g)"
  define NW where "NW = nat (new_width g)"
  define W where "W = nat w"
  have lenf: "length f = nat h" and rows: "list_all (\<lambda>row. length row = W) f"
    using assms(7,6) by (auto simp: is_frame_def W_def list_all_iff)
  have fit: "R0 + length f \<le> NH" "C0 + W \<le> NW"
    using assms(1-6) by (simp_all add: R0_def C0_def NH_def NW_def W_def lenf)
  have z: "np_zeros (new_height g) (new_width g) = Inr (replicate NH (replicate NW black))"
    using assms(1-6) by (simp add: np_zeros_def NH_def NW_def)
  have sr: "slice_bounds (v_padding g) (v_padding g + h) (new_height g) = (R0, R0 + length f)"
    using assms(1,2,5) by (simp add: slice_bounds_inside R0_def lenf)
  have sc: "slice_bounds (h_padding g) (h_padding g + w) (new_width g) = (C0, C0 + W)"
    using assms(3,4,6) by (simp add: slice_bounds_inside C0_def W_def)
  have bc: "broadcast_to (length f) W f = Inr f"
    using rows assms(5) by (intro broadcast_to_same) (simp_all add: lenf)
  have tk: "take (length f) (drop R0 (replicate NH (replicate NW black))) =
            replicate (length f) (replicate NW black)"
    using fit(1) by simp
  have "place_frame g w h f =
        Inr (replicate R0 (replicate NW black)
             @ map (\<lambda>s. replicate C0 black @ s @ replicate (NW - (C0 + W)) black) f
             @ replicate (NH - (R0 + length f)) (replicate NW black))"
  proof -
    have le: "length f \<le> NH - R0" "R0 \<le> NH" "C0 \<le> NW" using fit by linarith+
    show ?thesis
      using le by (simp add: place_frame_def z sr sc bc tk map2_replicate_left min_def)
  qed
  also have "\<dots> = Inr (map (\<lambda>i. map (\<lambda>j. if R0 \<le> i \<and> i < R0 + length f \<and> C0 \<le> j \<and> j < C0 + W
                             then f ! (i - R0) ! (j - C0) else black) [0 ..< NW]) [0 ..< NH])"
    using boxed_rows[OF fit rows] by simp
  also have "\<dots> = Inr (letterboxed g w h f)"
    unfolding letterboxed_def NH_def[symmetric] NW_def[symmetric]
    using assms(1,3,5,6)
    by (auto simp: R0_def C0_def W_def lenf nat_le_iff le_nat_iff nat_diff_distrib
        intro!: map_cong)
  finally show ?thesis .
qed

section \<open>The frame loop\<close>

text \<open>
  The loop releases nothing, reads a prefix of the stream in order, writes one canvas for
  each frame read, ends with the read that reports no frame exactly when no exception
  ended it, and with a reported frame count of 0 stops at the 100th frame.
\<close>

lemma frame_loop_no_release:
  "frame_loop g w h fc p fs = (r, evs) \<Longrightarrow>
     count_event ReleaseCapture evs = 0 \<and> count_event ReleaseWriter evs = 0
     \<and> \<not> writer_opened evs"
proof (induction fs arbitrary: p r evs)
  case Nil
  then show ?case by auto
next
  case (Cons f rest)
  show ?case
  proof (cases "place_frame g w h f")
    case (Inl e)
    then show ?thesis using Cons.prems by auto
  next
    case (Inr canvas)
    obtain r' evs' where rec: "frame_loop g w h fc (p + 1) rest = (r', evs')"
      by (cases "frame_loop g w h fc (p + 1) rest")
    note IH = Cons.IH[OF rec]
    show ?thesis using Cons.prems Inr rec IH
      by (auto split: if_splits sum.splits)
  qed
qed

lemma frame_loop_end:
  "frame_loop g w h fc p fs = (r, evs) \<Longrightarrow>
     (case r of
        None \<Rightarrow> count_event ReadEnd evs = 1 \<and> last evs = ReadEnd \<and> frames_read evs = fs
      | Some e \<Rightarrow> count_event ReadEnd evs = 0)"
proof (induction fs arbitrary: p r evs)
  case Nil
  then show ?case by auto
next
  case (Cons f rest)
  show ?case
  proof (cases "place_frame g w h f")
    case (Inl e)
    then show ?thesis using Cons.prems by auto
  next
    case (Inr canvas)
    obtain r' evs' where rec: "frame_loop g w h fc (p + 1) rest = (r', evs')"
      by (cases "frame_loop g w h fc (p + 1) rest")
    note IH = Cons.IH[OF rec]
    have ne: "r' = None \<Longrightarrow> evs' \<noteq> []" using IH by (auto split: option.splits)
    show ?thesis using Cons.prems Inr rec IH ne
      by (auto split: if_splits sum.splits option.splits)
  qed
qed

lemma frame_loop_prefix:
  "frame_loop g w h fc p fs = (r, evs) \<Longrightarrow>
     take (length (frames_read evs)) fs = frames_read evs"
proof (induction fs arbitrary: p r evs)
  case Nil
  then show ?case by auto
next
  case (Cons f rest)
  show ?case
  proof (cases "place_frame g w h f")
    case (Inl e)
    then show ?thesis using Cons.prems by auto
  next
    case (Inr canvas)
    obtain r' evs' where rec: "frame_loop g w h fc (p + 1) rest = (r', evs')"
      by (cases "frame_loop g w h fc (p + 1) rest")
    note IH = Cons.IH[OF rec]
    show ?thesis using Cons.prems Inr rec IH
      by (auto split: if_splits sum.splits)
  qed
qed

lemma frame_loop_written:
  assumes "list_all (\<lambda>f. place_frame g w h f = Inr (F f)) fs"
    and "frame_loop g w h fc p fs = (r, evs)"
  shows "frames_written evs = map F (frames_read evs)"
  using assms
proof (induction fs arbitrary: p r evs)
  case Nil
  then show ?case by auto
next
  case (Cons f rest)
  have pf: "place_frame g w h f = Inr (F f)" and rest: "list_all (\<lambda>f. place_frame g w h f = Inr (F f)) rest"
    using Cons.prems(1) by simp_all
  obtain r' evs' where rec: "frame_loop g w h fc (p + 1) rest = (r', evs')"
    by (cases "frame_loop g w h fc (p + 1) rest")
  note IH = Cons.IH[OF rest rec]
  show ?case using Cons.prems(2) pf rec IH
    by (auto split: if_splits sum.splits)
qed

lemma progress_percentage_zero: "progress_percentage n 0 = Inl ZeroDivisionError"
  by (simp add: progress_percentage_def int_truediv_def)

lemma frame_loop_zero_count:
  assumes "list_all (\<lambda>f. place_frame g w h f = Inr (F f)) fs"
    and "p < 100" "100 - p \<le> length fs"
    and "frame_loop g w h 0 p fs = (r, evs)"
  shows "r = Some ZeroDivisionError \<and> length (frames_written evs) = 100 - p
         \<and> length (frames_read evs) = 100 - p"
  using assms
proof (induction fs arbitrary: p r evs)
  case Nil
  then show ?case by simp
next
  case (Cons f rest)
  have pf: "place_frame g w h f = Inr (F f)" and rest: "list_all (\<lambda>f. place_frame g w h f = Inr (F f)) rest"
    using Cons.prems(1) by simp_all
  show ?case
  proof (cases "p = 99")
    case True
    then show ?thesis using Cons.prems(4) pf by (auto simp: progress_percentage_zero)
  next
    case False
    then have p1: "p + 1 < 100" and len: "100 - (p + 1) \<le> length rest" and m: "(p + 1) mod 100 \<noteq> 0"
      using Cons.prems(2,3) by auto
    obtain r' evs' where rec: "frame_loop g w h 0 (p + 1) rest = (r', evs')"
      by (cases "frame_loop g w h 0 (p + 1) rest")
    note IH = Cons.IH[OF rest p1 len rec]
    show ?thesis using Cons.prems(4) pf rec IH m p1 by auto
  qed
qed

lemma frames_read_append: "frames_read (xs @ ys) = frames_read xs @ frames_read ys"
  by (induction xs rule: frames_read.induct) simp_all

lemma frames_written_append: "frames_written (xs @ ys) = frames_written xs @ frames_written ys"
  by (induction xs rule: frames_written.induct) simp_all

lemma writer_opened_append: "writer_opened (xs @ ys) = (writer_opened xs \<or> writer_opened ys)"
  by (induction xs rule: writer_opened.induct) simp_all

lemma count_event_append: "count_event x (xs @ ys) = count_event x xs + count_event x ys"
  by (induction xs) simp_all

lemma geometry_positive:
  fixes w h :: int
  assumes "0 < w" "w < 2 ^ 31" "0 < h" "h < 2 ^ 31" "target_geometry w h = Inr g"
  shows "w \<le> new_width g" "h \<le> new_height g" "new_width g < 2 ^ 40" "new_height g < 2 ^ 40"
    and "0 \<le> h_padding g" "0 \<le> v_padding g"
    and "h_padding g + w \<le> new_width g" "v_padding g + h \<le> new_height g"
proof -
  have g: "g = (if 9 * w < 16 * h
          then \<lparr>new_width = 16 * h div 9, new_height = h,
                h_padding = (16 * h div 9 - w) div 2, v_padding = 0\<rparr>
          else \<lparr>new_width = w, new_height = 9 * w div 16,
                h_padding = 0, v_padding = (9 * w div 16 - h) div 2\<rparr>)"
    using target_geometry_eq[OF assms(1-4)] assms(5) by simp
  have a: "9 * w < 16 * h \<Longrightarrow> w \<le> 16 * h div 9" by linarith
  have b: "\<not> 9 * w < 16 * h \<Longrightarrow> h \<le> 9 * w div 16" by linarith
  have c: "16 * h div 9 < 2 ^ 40" "9 * w div 16 < 2 ^ 40" using assms(2,4) by simp_all
  show "w \<le> new_width g" unfolding g using a by simp
  show "h \<le> new_height g" unfolding g using b by simp 
  show "new_width g < 2 ^ 40" unfolding g using assms(2) c by simp
  show "new_height g < 2 ^ 40" unfolding g using assms(4) c by simp
  show "0 \<le> h_padding g" unfolding g using a by simp 
  show "0 \<le> v_padding g" unfolding g using b by simp 
  show "h_padding g + w \<le> new_width g" unfolding g using a by simp linarith
  show "v_padding g + h \<le> new_height g" unfolding g using b by simp linarith
qed

lemma convert_opened:
  assumes "opened cap"
    and "0 < prop_frame_width cap" "prop_frame_width cap < 2 ^ 31"
    and "0 < prop_frame_height cap" "prop_frame_height cap < 2 ^ 31"
    and "target_geometry (prop_frame_width cap) (prop_frame_height cap) = Inr g"
    and "frame_loop g (prop_frame_width cap) (prop_frame_height cap) (prop_frame_count cap) 0
           (stream cap) = (r, evs)"
  shows "\<exists>start. frames_read start = [] \<and> frames_written start = []
           \<and> count_event ReleaseCapture start = 0 \<and> count_event ReleaseWriter start = 0
           \<and> count_event ReadEnd start = 0
           \<and> convert_to_16_9 cap input_video output_video =
     (case r of
        Some e \<Rightarrow> (Raised e, start @ evs)
      | None \<Rightarrow> (Returned (), start @ evs
                    @ [ReleaseCapture, ReleaseWriter, Print (ConversionComplete output_video)]))"
proof -
  note P = geometry_positive[OF assms(2-6)]
  have nw: "0 < new_width g" and nh: "0 < new_height g" using P(1,2) assms(2,4) by linarith+
  define cr where "cr = fl (of_int (prop_frame_width cap) / of_int (prop_frame_height cap))"
  define nr where "nr = fl (of_int (new_width g) / of_int (new_height g))"
  define start where "start =
     [OpenWriter output_video (prop_fps cap) (new_width g) (new_height g),
      Print Converting,
      Print (OriginalDimensions (prop_frame_width cap) (prop_frame_height cap) cr),
      Print (NewDimensions (new_width g) (new_height g) nr)]"
  have cr: "int_truediv (prop_frame_width cap) (prop_frame_height cap) = Inr cr"
    unfolding cr_def using assms(2-5) by (rule current_ratio_ok)
  have nd: "new_dimensions cr (prop_frame_width cap) (prop_frame_height cap) = Inr g"
    using assms(6) by (simp add: target_geometry_def cr)
  have nr: "int_truediv (new_width g) (new_height g) = Inr nr"
    unfolding nr_def using nw P(3) nh P(4) by (rule int_truediv_ok)
  have "convert_to_16_9 cap input_video output_video =
     (case r of
        Some e \<Rightarrow> (Raised e, start @ evs)
      | None \<Rightarrow> (Returned (), start @ evs
                    @ [ReleaseCapture, ReleaseWriter, Print (ConversionComplete output_video)]))"
    using assms(1,7)
    by (simp add: convert_to_16_9_def Let_def cr nd nr start_def split: option.splits)
  moreover have "frames_read start = []" "frames_written start = []"
    "count_event ReleaseCapture start = 0" "count_event ReleaseWriter start = 0"
    "count_event ReadEnd start = 0"
    by (simp_all add: start_def)
  ultimately show ?thesis by blast
qed

lemma letterboxed_same_size:
  assumes "is_frame h w f" "0 < h" "0 < w"
    and "new_width g = w" "new_height g = h" "h_padding g = 0" "v_padding g = 0"
  shows "letterboxed g w h f = f"
proof (rule nth_equalityI)
  have lenf: "length f = nat h" using assms(1) by (auto simp: is_frame_def)
  show "length (letterboxed g w h f) = length f" by (simp add: letterboxed_def assms(5) lenf)
  fix i assume "i < length (letterboxed g w h f)"
  then have i: "i < nat h" by (simp add: letterboxed_def assms(5))
  then have "i < length f" by (simp add: lenf)
  then have "int (length (f ! i)) = w" using assms(1) by (simp add: is_frame_def list_all_length)
  then have lenr: "length (f ! i) = nat w" by simp
  have "letterboxed g w h f ! i =
        map (\<lambda>j. if int i < h \<and> int j < w then f ! i ! j else black) [0 ..< nat w]"
    using i by (simp add: letterboxed_def assms(4-7))
  also have "\<dots> = map (\<lambda>j. f ! i ! j) [0 ..< nat w]"
    using i by (intro map_cong) auto
  also have "\<dots> = f ! i" unfolding lenr[symmetric] by (rule map_nth)
  finally show "letterboxed g w h f ! i = f ! i" .
qed

lemma place_all_frames:
  fixes w h :: int
  assumes "0 < w" "w < 2 ^ 31" "0 < h" "h < 2 ^ 31" "target_geometry w h = Inr g"
    and "list_all (is_frame h w) fs"
  shows "list_all (\<lambda>f. place_frame g w h f = Inr (letterboxed g w h f)) fs"
proof -
  note P = geometry_positive[OF assms(1-5)]
  have "place_frame g w h f = Inr (letterboxed g w h f)" if "is_frame h w f" for f
    using P(6,8,5,7) assms(3,1) that by (rule place_frame_letterboxed)
  then show ?thesis using assms(6) by (simp add: list_all_iff)
qed

lemma convert_zero_count:
  assumes "opened cap"
    and "0 < prop_frame_width cap" "prop_frame_width cap < 2 ^ 31"
    and "0 < prop_frame_height cap" "prop_frame_height cap < 2 ^ 31"
    and "prop_frame_count cap = 0" "100 \<le> length (stream cap)"
    and "list_all (is_frame (prop_frame_height cap) (prop_frame_width cap)) (stream cap)"
  shows "fst (convert_to_16_9 cap input_video output_video) = Raised ZeroDivisionError"
    and "length (frames_written (snd (convert_to_16_9 cap input_video output_video))) = 100"
    and "length (frames_read (snd (convert_to_16_9 cap input_video output_video))) = 100"
    and "count_event ReadEnd (snd (convert_to_16_9 cap input_video output_video)) = 0"
    and "count_event ReleaseCapture (snd (convert_to_16_9 cap input_video output_video)) = 0"
    and "count_event ReleaseWriter (snd (convert_to_16_9 cap input_video output_video)) = 0"
proof -
  obtain g where g: "target_geometry (prop_frame_width cap) (prop_frame_height cap) = Inr g"
    using target_geometry_eq[OF assms(2-5)] by blast
  obtain r evs where loop: "frame_loop g (prop_frame_width cap) (prop_frame_height cap) 0 0
           (stream cap) = (r, evs)"
    by (cases "frame_loop g (prop_frame_width cap) (prop_frame_height cap) 0 0 (stream cap)")
  note pl = place_all_frames[OF assms(2-5) g assms(8)]
  have z: "r = Some ZeroDivisionError \<and> length (frames_written evs) = 100 - 0
         \<and> length (frames_read evs) = 100 - 0"
    using pl _ _ loop by (rule frame_loop_zero_count) (use assms(7) in simp_all)
  have e: "count_event ReadEnd evs = 0" using frame_loop_end[OF loop] z by simp
  note nr = frame_loop_no_release[OF loop]
  obtain start where s: "frames_read start = []" "frames_written start = []"
      "count_event ReleaseCapture start = 0" "count_event ReleaseWriter start = 0"
      "count_event ReadEnd start = 0"
      "convert_to_16_9 cap input_video output_video = (Raised ZeroDivisionError, start @ evs)"
    using convert_opened[OF assms(1-5) g, of r evs input_video output_video] loop z assms(6)
    by auto
  show "fst (convert_to_16_9 cap input_video output_video) = Raised ZeroDivisionError"
    by (simp add: s(6))
  show "length (frames_written (snd (convert_to_16_9 cap input_video output_video))) = 100"
    using z by (simp add: s frames_written_append)
  show "length (frames_read (snd (convert_to_16_9 cap input_video output_video))) = 100"
    using z by (simp add: s frames_read_append)
  show "count_event ReadEnd (snd (convert_to_16_9 cap input_video output_video)) = 0"
    using e by (simp add: s count_event_append)
  show "count_event ReleaseCapture (snd (convert_to_16_9 cap input_video output_video)) = 0"
    using nr by (simp add: s count_event_append)
  show "count_event ReleaseWriter (snd (convert_to_16_9 cap input_video output_video)) = 0"
    using nr by (simp add: s count_event_append)
qed

lemma frame_loop_short:
  assumes "list_all (\<lambda>f. place_frame g w h f = Inr (F f)) fs"
    and "p + length fs < 100"
  shows "fst (frame_loop g w h fc p fs) = None"
  using assms
proof (induction fs arbitrary: p)
  case Nil
  then show ?case by simp
next
  case (Cons f rest)
  have pf: "place_frame g w h f = Inr (F f)" and rest: "list_all (\<lambda>f. place_frame g w h f = Inr (F f)) rest"
    using Cons.prems(1) by simp_all
  have m: "(p + 1) mod 100 \<noteq> 0" and len: "(p + 1) + length rest < 100"
    using Cons.prems(2) by auto
  note IH = Cons.IH[OF rest len]
  obtain r' evs' where rec: "frame_loop g w h fc (p + 1) rest = (r', evs')"
    by (cases "frame_loop g w h fc (p + 1) rest")
  show ?case using pf m IH rec by simp
qed

lemma convert_short_returns:
  assumes "opened cap"
    and "0 < prop_frame_width cap" "prop_frame_width cap < 2 ^ 31"
    and "0 < prop_frame_height cap" "prop_frame_height cap < 2 ^ 31"
    and "list_all (is_frame (prop_frame_height cap) (prop_frame_width cap)) (stream cap)"
    and "length (stream cap) < 100"
  shows "fst (convert_to_16_9 cap input_video output_video) = Returned ()"
proof -
  obtain g where g: "target_geometry (prop_frame_width cap) (prop_frame_height cap) = Inr g"
    using target_geometry_eq[OF assms(2-5)] by blast
  obtain r evs where loop: "frame_loop g (prop_frame_width cap) (prop_frame_height cap)
           (prop_frame_count cap) 0 (stream cap) = (r, evs)"
    by (cases "frame_loop g (prop_frame_width cap) (prop_frame_height cap)
           (prop_frame_count cap) 0 (stream cap)")
  note pl = place_all_frames[OF assms(2-5) g assms(6)]
  have "fst (frame_loop g (prop_frame_width cap) (prop_frame_height cap)
           (prop_frame_count cap) 0 (stream cap)) = None"
    using pl by (rule frame_loop_short) (use assms(7) in simp)
  then have r: "r = None" using loop by simp
  show ?thesis
    using convert_opened[OF assms(1-5) g loop, of input_video output_video] r by auto
qed

lemma fl_positive_nonneg:
  assumes "0 < x"
  shows "0 \<le> fl x"
proof -
  define u :: rat where "u = 2 powi (max (ilog2 x) (-1022) - 52)"
  have u: "0 < u" by (simp add: u_def zero_less_power_int)
  have "of_int 0 \<le> x / u" using assms u by simp
  then have "0 \<le> rne (x / u)" by (rule rne_ge)
  then have "(0::rat) \<le> of_int (rne (x / u))" by simp
  then have "0 \<le> of_int (rne (x / u)) * u" using u by simp
  then show ?thesis using assms by (simp add: fl_def fl_pos_def Let_def u_def)
qed

lemma fl_abs_bound:
  assumes "\<bar>x\<bar> \<le> of_int n" "n < 2 ^ 53"
  shows "\<bar>fl x\<bar> \<le> of_int n"
proof -
  consider "x = 0" | "0 < x" | "x < 0" by linarith
  then show ?thesis
  proof cases
    case 1
    then show ?thesis using assms(1) by (simp add: fl_def)
  next
    case 2
    then have "x \<le> of_int n" using assms(1) by simp
    then have "fl x \<le> of_int n" using 2 assms(2) by (intro fl_int_upper)
    moreover have "0 \<le> fl x" using 2 by (rule fl_positive_nonneg)
    ultimately show ?thesis by simp
  next
    case 3
    then have p: "0 < - x" and le: "- x \<le> of_int n" using assms(1) by simp_all
    have f: "fl x = - fl (- x)" using 3 by (simp add: fl_def)
    have "fl (- x) \<le> of_int n" using p le assms(2) by (rule fl_int_upper)
    moreover have "0 \<le> fl (- x)" using p by (rule fl_positive_nonneg)
    ultimately show ?thesis by (simp add: f)
  qed
qed

lemma int_truediv_small:
  assumes "fc \<noteq> 0" "p < 2 ^ 53"
  shows "\<exists>r. int_truediv (int p) fc = Inr r"
proof -
  define x :: rat where "x = of_int (int p) / of_int fc"
  have "1 \<le> \<bar>fc\<bar>" using assms(1) by simp
  then have "(of_int 1 :: rat) \<le> of_int \<bar>fc\<bar>" by (rule iffD2[OF of_int_le_iff])
  then have fc1: "(1::rat) \<le> \<bar>of_int fc\<bar>" by simp
  have p0: "(0::rat) \<le> of_int (int p)" by simp
  have "\<bar>x\<bar> = of_int (int p) / \<bar>of_int fc\<bar>" by (simp add: x_def)
  also have "\<dots> \<le> of_int (int p) / 1" using fc1 p0 by (intro divide_left_mono) auto
  finally have ax: "\<bar>x\<bar> \<le> of_int (int p)" by simp
  have "int p < 2 ^ 53" using assms(2) by (metis of_nat_less_iff of_nat_numeral of_nat_power)
  then have b: "\<bar>fl x\<bar> \<le> of_int (int p)" and lt: "(of_int (int p) :: rat) < of_int (2 ^ 53)"
    using ax fl_abs_bound by (blast, simp)
  have "(of_int (2 ^ 53) :: rat) \<le> 2 ^ 1024" by simp
  then have "\<not> overflows (fl x)" using b lt by (simp add: overflows_def)
  then show ?thesis using assms(1) by (simp add: int_truediv_def Let_def x_def)
qed

lemma progress_percentage_ok:
  assumes "fc \<noteq> 0" "p < 2 ^ 53"
  shows "\<exists>v. progress_percentage p fc = Inr v"
  using int_truediv_small[OF assms] by (auto simp: progress_percentage_def)

lemma frame_loop_completes:
  assumes "list_all (\<lambda>f. place_frame g w h f = Inr (F f)) fs"
    and "fc \<noteq> 0" "p + length fs < 2 ^ 53"
  shows "fst (frame_loop g w h fc p fs) = None"
  using assms
proof (induction fs arbitrary: p)
  case Nil
  then show ?case by simp
next
  case (Cons f rest)
  have pf: "place_frame g w h f = Inr (F f)" and rest: "list_all (\<lambda>f. place_frame g w h f = Inr (F f)) rest"
    using Cons.prems(1) by simp_all
  have len: "(p + 1) + length rest < 2 ^ 53" and p1: "p + 1 < 2 ^ 53"
    using Cons.prems(3) by auto
  note IH = Cons.IH[OF rest Cons.prems(2) len]
  obtain v where v: "progress_percentage (p + 1) fc = Inr v"
    using progress_percentage_ok[OF Cons.prems(2) p1] by blast
  obtain r' evs' where rec: "frame_loop g w h fc (p + 1) rest = (r', evs')"
    by (cases "frame_loop g w h fc (p + 1) rest")
  show ?case using pf IH rec v by simp
qed

lemma convert_returns:
  assumes "opened cap"
    and "0 < prop_frame_width cap" "prop_frame_width cap < 2 ^ 31"
    and "0 < prop_frame_height cap" "prop_frame_height cap < 2 ^ 31"
    and "list_all (is_frame (prop_frame_height cap) (prop_frame_width cap)) (stream cap)"
    and "(prop_frame_count cap \<noteq> 0 \<and> length (stream cap) < 2 ^ 53) \<or> length (stream cap) < 100"
  shows "fst (convert_to_16_9 cap input_video output_video) = Returned ()"
proof -
  obtain g where g: "target_geometry (prop_frame_width cap) (prop_frame_height cap) = Inr g"
    using target_geometry_eq[OF assms(2-5)] by blast
  obtain r evs where loop: "frame_loop g (prop_frame_width cap) (prop_frame_height cap)
           (prop_frame_count cap) 0 (stream cap) = (r, evs)"
    by (cases "frame_loop g (prop_frame_width cap) (prop_frame_height cap)
           (prop_frame_count cap) 0 (stream cap)")
  note pl = place_all_frames[OF assms(2-5) g assms(6)]
  have "fst (frame_loop g (prop_frame_width cap) (prop_frame_height cap)
           (prop_frame_count cap) 0 (stream cap)) = None"
  proof (cases "length (stream cap) < 100")
    case True
    show ?thesis using pl by (rule frame_loop_short) (use True in simp)
  next
    case False
    then have c: "prop_frame_count cap \<noteq> 0" and l: "0 + length (stream cap) < 2 ^ 53"
      using assms(7) by auto
    show ?thesis using pl c l by (rule frame_loop_completes)
  qed
  then have r: "r = None" using loop by simp
  show ?thesis
    using convert_opened[OF assms(1-5) g loop, of input_video output_video] r by auto
qed

lemma convert_returned_reads_all:
  assumes "opened cap"
    and "0 < prop_frame_width cap" "prop_frame_width cap < 2 ^ 31"
    and "0 < prop_frame_height cap" "prop_frame_height cap < 2 ^ 31"
    and "fst (convert_to_16_9 cap input_video output_video) = Returned ()"
  shows "frames_read (snd (convert_to_16_9 cap input_video output_video)) = stream cap"
proof -
  obtain g where g: "target_geometry (prop_frame_width cap) (prop_frame_height cap) = Inr g"
    using target_geometry_eq[OF assms(2-5)] by blast
  obtain r evs where loop: "frame_loop g (prop_frame_width cap) (prop_frame_height cap)
           (prop_frame_count cap) 0 (stream cap) = (r, evs)"
    by (cases "frame_loop g (prop_frame_width cap) (prop_frame_height cap)
           (prop_frame_count cap) 0 (stream cap)")
  obtain start where s: "frames_read start = []"
      "convert_to_16_9 cap input_video output_video =
         (case r of
            Some e \<Rightarrow> (Raised e, start @ evs)
          | None \<Rightarrow> (Returned (), start @ evs
                    @ [ReleaseCapture, ReleaseWriter, Print (ConversionComplete output_video)]))"
    using convert_opened[OF assms(1-5) g loop, of input_video output_video] by blast
  have r: "r = None" using assms(6) s(2) by (cases r) simp_all
  then have "frames_read evs = stream cap" using frame_loop_end[OF loop] by simp
  then show ?thesis using r by (simp add: s frames_read_append)
qed

section \<open>The claims about the dimension rule\<close>

text \<open>
  Claim C1, as stated, fails: line 33 converts with \<open>int\<close>, which truncates, so a
  source of 1000 by 1000 gets the width 1777 and the padding 388, where rounding
  1000 * 16 / 9 would give 1778 and 389.
\<close>

theorem dimension_rule_rounding_counterexample:
  "target_geometry 1000 1000 =
     Inr \<lparr>new_width = 1777, new_height = 1000, h_padding = 388, v_padding = 0\<rparr>
   \<and> target_geometry 1000 1000 \<noteq>
     Inr \<lparr>new_width = round (1000 * 16 / 9 :: rat), new_height = 1000,
          h_padding = (round (1000 * 16 / 9 :: rat) - 1000) div 2, v_padding = 0\<rparr>
   \<and> round (1000 * 16 / 9 :: rat) = (1778 :: int)"
proof -
  have g: "target_geometry 1000 1000 =
     Inr \<lparr>new_width = 1777, new_height = 1000, h_padding = 388, v_padding = 0\<rparr>"
    using target_geometry_eq[of 1000 1000] by simp
  have r: "round (1000 * 16 / 9 :: rat) = (1778 :: int)" by (simp add: round_def floor_eq_iff)
  show ?thesis unfolding g r by simp
qed

text \<open>
  Claim C1, amended: for a source of width and height between 1 and \<open>2 ^ 31 - 1\<close>
  (the range of the capture's integer properties), a source with width / height below
  16 / 9 gets the width \<open>floor (height * 16 / 9)\<close>, its own height, the horizontal
  padding \<open>(new_width - width) div 2\<close> and no vertical padding; any other source keeps
  its width and gets the height \<open>floor (width * 9 / 16)\<close>, the vertical padding
  \<open>(new_height - height) div 2\<close> and no horizontal padding. The products are the exact
  ones: the rounding of the floating-point operations never changes the integer part.
\<close>

theorem dimension_rule_truncates:
  fixes w h :: int
  assumes "0 < w" "w < 2 ^ 31" "0 < h" "h < 2 ^ 31"
  shows "target_geometry w h =
     Inr (if (of_int w / of_int h :: rat) < 16 / 9
          then \<lparr>new_width = \<lfloor>of_int h * 16 / 9 :: rat\<rfloor>, new_height = h,
                h_padding = (\<lfloor>of_int h * 16 / 9 :: rat\<rfloor> - w) div 2, v_padding = 0\<rparr>
          else \<lparr>new_width = w, new_height = \<lfloor>of_int w * 9 / 16 :: rat\<rfloor>,
                h_padding = 0, v_padding = (\<lfloor>of_int w * 9 / 16 :: rat\<rfloor> - h) div 2\<rparr>)"
proof -
  have hpos: "(0::rat) < of_int h" using assms(3) by simp
  have "(of_int w / of_int h :: rat) < 16 / 9 \<longleftrightarrow> (of_int (9 * w) :: rat) < of_int (16 * h)"
    using hpos by (simp add: pos_divide_less_eq mult.commute)
  also have "\<dots> \<longleftrightarrow> 9 * w < 16 * h" by (rule of_int_less_iff)
  finally have c: "(of_int w / of_int h :: rat) < 16 / 9 \<longleftrightarrow> 9 * w < 16 * h" .
  have "\<lfloor>(of_int (16 * h) :: rat) / of_int 9\<rfloor> = 16 * h div 9" by (rule floor_divide_of_int_eq)
  then have fw: "\<lfloor>of_int h * 16 / 9 :: rat\<rfloor> = 16 * h div 9" by (simp add: mult.commute)
  have "\<lfloor>(of_int (9 * w) :: rat) / of_int 16\<rfloor> = 9 * w div 16" by (rule floor_divide_of_int_eq)
  then have fh: "\<lfloor>of_int w * 9 / 16 :: rat\<rfloor> = 9 * w div 16" by (simp add: mult.commute)
  show ?thesis unfolding c fw fh using assms by (rule target_geometry_eq)
qed

text \<open>
  The rule at 1000 by 1000 (width 1777, padding 388), at 640 by 480 (width 853, padding
  106), at 1920 by 1080 (unchanged) and at 2560 by 1080 (height 1440, padding 180).
\<close>

theorem dimension_rule_truncates_witness:
  "(0::int) < 1000 \<and> (1000::int) < 2 ^ 31 \<and> (0::int) < 640 \<and> (640::int) < 2 ^ 31
   \<and> (0::int) < 480 \<and> (480::int) < 2 ^ 31
   \<and> target_geometry 1000 1000 =
       Inr \<lparr>new_width = 1777, new_height = 1000, h_padding = 388, v_padding = 0\<rparr>
   \<and> target_geometry 640 480 =
       Inr \<lparr>new_width = 853, new_height = 480, h_padding = 106, v_padding = 0\<rparr>
   \<and> target_geometry 1920 1080 =
       Inr \<lparr>new_width = 1920, new_height = 1080, h_padding = 0, v_padding = 0\<rparr>
   \<and> target_geometry 2560 1080 =
       Inr \<lparr>new_width = 2560, new_height = 1440, h_padding = 0, v_padding = 180\<rparr>"
proof -
  have e: "\<lfloor>16000 / 9 :: rat\<rfloor> = 1777" "\<lfloor>2560 / 3 :: rat\<rfloor> = 853"
    by (simp_all add: floor_eq_iff)
  show ?thesis
    using dimension_rule_truncates[of 1000 1000] dimension_rule_truncates[of 640 480]
      dimension_rule_truncates[of 1920 1080] dimension_rule_truncates[of 2560 1080]
    by (simp add: e)
qed

text \<open>
  Claim C2: for every source of positive width and height (below \<open>2 ^ 31\<close>), the
  dimensions are computed without error, the new width is at least the width, the new
  height at least the height, and both paddings are non-negative: bars are added,
  nothing is cropped.
\<close>

theorem output_never_smaller:
  fixes w h :: int
  assumes "0 < w" "w < 2 ^ 31" "0 < h" "h < 2 ^ 31"
  shows "\<exists>g. target_geometry w h = Inr g \<and> w \<le> new_width g \<and> h \<le> new_height g
           \<and> 0 \<le> h_padding g \<and> 0 \<le> v_padding g"
proof -
  obtain g where g: "target_geometry w h = Inr g"
    using target_geometry_eq[OF assms] by blast
  note P = geometry_positive[OF assms g]
  show ?thesis using g P(1,2,5,6) by blast
qed

text \<open>The same at 1280 by 1024.\<close>

theorem output_never_smaller_witness:
  "(0::int) < 1280 \<and> (1280::int) < 2 ^ 31 \<and> (0::int) < 1024 \<and> (1024::int) < 2 ^ 31
   \<and> (\<exists>g. target_geometry 1280 1024 = Inr g \<and> 1280 \<le> new_width g \<and> 1024 \<le> new_height g
           \<and> 0 \<le> h_padding g \<and> 0 \<le> v_padding g)"
  using output_never_smaller[of 1280 1024] by simp


section \<open>The claims about the frames\<close>

text \<open>
  Claim C9: for every source of positive width and height (below \<open>2 ^ 31\<close>), the
  offsets satisfy \<open>v_padding + height \<le> new_height\<close> and \<open>h_padding + width \<le> new_width\<close>,
  so the two index ranges of line 65 lie within the canvas and select exactly \<open>height\<close>
  rows and \<open>width\<close> columns, and assigning a frame of that shape does not fail.
\<close>

theorem frame_copy_in_bounds:
  fixes w h :: int
  assumes "0 < w" "w < 2 ^ 31" "0 < h" "h < 2 ^ 31" "is_frame h w f"
  shows "\<exists>g canvas. target_geometry w h = Inr g
           \<and> 0 \<le> v_padding g \<and> v_padding g + h \<le> new_height g
           \<and> 0 \<le> h_padding g \<and> h_padding g + w \<le> new_width g
           \<and> slice_bounds (v_padding g) (v_padding g + h) (new_height g)
               = (nat (v_padding g), nat (v_padding g) + nat h)
           \<and> slice_bounds (h_padding g) (h_padding g + w) (new_width g)
               = (nat (h_padding g), nat (h_padding g) + nat w)
           \<and> place_frame g w h f = Inr canvas"
proof -
  obtain g where g: "target_geometry w h = Inr g"
    using target_geometry_eq[OF assms(1-4)] by blast
  note P = geometry_positive[OF assms(1-4) g]
  have r: "slice_bounds (v_padding g) (v_padding g + h) (new_height g)
            = (nat (v_padding g), nat (v_padding g) + nat h)"
    using P(6) _ P(8) by (rule slice_bounds_inside) (use assms(3) in simp)
  have c: "slice_bounds (h_padding g) (h_padding g + w) (new_width g)
            = (nat (h_padding g), nat (h_padding g) + nat w)"
    using P(5) _ P(7) by (rule slice_bounds_inside) (use assms(1) in simp)
  have "place_frame g w h f = Inr (letterboxed g w h f)"
    using P(6,8,5,7) assms(3,1,5) by (rule place_frame_letterboxed)
  then show ?thesis using g P(5-8) r c by blast
qed

text \<open>The same for a source of 3 by 3, whose canvas is 5 wide with the frame at column 1.\<close>

theorem frame_copy_in_bounds_witness:
  "(0::int) < 3 \<and> (3::int) < 2 ^ 31
   \<and> is_frame 3 3 (replicate 3 (replicate 3 (7, 8, 9)))
   \<and> (\<exists>g canvas. target_geometry 3 3 = Inr g
           \<and> 0 \<le> v_padding g \<and> v_padding g + 3 \<le> new_height g
           \<and> 0 \<le> h_padding g \<and> h_padding g + 3 \<le> new_width g
           \<and> slice_bounds (v_padding g) (v_padding g + 3) (new_height g)
               = (nat (v_padding g), nat (v_padding g) + nat 3)
           \<and> slice_bounds (h_padding g) (h_padding g + 3) (new_width g)
               = (nat (h_padding g), nat (h_padding g) + nat 3)
           \<and> place_frame g 3 3 (replicate 3 (replicate 3 (7, 8, 9))) = Inr canvas)"
proof -
  have f: "is_frame 3 3 (replicate 3 (replicate 3 (7, 8, 9)))" by (simp add: is_frame_def list_all_iff)
  show ?thesis
    using f frame_copy_in_bounds[of 3 3 "replicate 3 (replicate 3 (7, 8, 9))"] by simp
qed

lemma letterboxed_shape:
  assumes "0 \<le> new_height g" "0 \<le> new_width g"
  shows "is_frame (new_height g) (new_width g) (letterboxed g w h f)"
  using assms by (simp add: is_frame_def letterboxed_def list_all_iff)

text \<open>
  Claim C3: on a source that opened, with positive width and height (below \<open>2 ^ 31\<close>)
  and frames of that shape, the frames written are, in order and one for one, the frames
  read, each as the zero-filled canvas of \<open>new_height\<close> by \<open>new_width\<close> that holds the
  frame unchanged at (\<open>v_padding\<close>, \<open>h_padding\<close>); every frame written has the shape
  (\<open>new_height\<close>, \<open>new_width\<close>); and the frames read are the first frames of the source,
  in the source's order. A run that returns has read every frame of the source, so that
  what it wrote is the canvas of each source frame, in the source's order, none dropped,
  none twice. The run returns whenever the reported frame count is not 0 (for a source of
  fewer than \<open>2 ^ 53\<close> frames) or the source has fewer than 100 frames.
\<close>

theorem frames_composited_in_order:
  assumes "opened cap"
    and "0 < prop_frame_width cap" "prop_frame_width cap < 2 ^ 31"
    and "0 < prop_frame_height cap" "prop_frame_height cap < 2 ^ 31"
    and "list_all (is_frame (prop_frame_height cap) (prop_frame_width cap)) (stream cap)"
  shows "\<exists>g. target_geometry (prop_frame_width cap) (prop_frame_height cap) = Inr g
     \<and> frames_written (snd (convert_to_16_9 cap input_video output_video))
         = map (letterboxed g (prop_frame_width cap) (prop_frame_height cap))
             (frames_read (snd (convert_to_16_9 cap input_video output_video)))
     \<and> list_all (is_frame (new_height g) (new_width g))
           (frames_written (snd (convert_to_16_9 cap input_video output_video)))
     \<and> take (length (frames_read (snd (convert_to_16_9 cap input_video output_video))))
           (stream cap)
         = frames_read (snd (convert_to_16_9 cap input_video output_video))
     \<and> (fst (convert_to_16_9 cap input_video output_video) = Returned () \<longrightarrow>
          frames_read (snd (convert_to_16_9 cap input_video output_video)) = stream cap
          \<and> frames_written (snd (convert_to_16_9 cap input_video output_video))
              = map (letterboxed g (prop_frame_width cap) (prop_frame_height cap)) (stream cap))
     \<and> ((prop_frame_count cap \<noteq> 0 \<and> length (stream cap) < 2 ^ 53)
          \<or> length (stream cap) < 100 \<longrightarrow>
          fst (convert_to_16_9 cap input_video output_video) = Returned ())"
proof -
  obtain g where g: "target_geometry (prop_frame_width cap) (prop_frame_height cap) = Inr g"
    using target_geometry_eq[OF assms(2-5)] by blast
  obtain r evs where loop: "frame_loop g (prop_frame_width cap) (prop_frame_height cap)
           (prop_frame_count cap) 0 (stream cap) = (r, evs)"
    by (cases "frame_loop g (prop_frame_width cap) (prop_frame_height cap)
           (prop_frame_count cap) 0 (stream cap)")
  note pl = place_all_frames[OF assms(2-5) g assms(6)]
  have wr: "frames_written evs
            = map (letterboxed g (prop_frame_width cap) (prop_frame_height cap)) (frames_read evs)"
    using pl loop by (rule frame_loop_written)
  have pre: "take (length (frames_read evs)) (stream cap) = frames_read evs"
    using loop by (rule frame_loop_prefix)
  obtain start where s: "frames_read start = []" "frames_written start = []"
      "convert_to_16_9 cap input_video output_video =
         (case r of
            Some e \<Rightarrow> (Raised e, start @ evs)
          | None \<Rightarrow> (Returned (), start @ evs
                    @ [ReleaseCapture, ReleaseWriter, Print (ConversionComplete output_video)]))"
    using convert_opened[OF assms(1-5) g loop, of input_video output_video] by blast
  have rd: "frames_read (snd (convert_to_16_9 cap input_video output_video)) = frames_read evs"
    by (cases r) (simp_all add: s frames_read_append)
  have wt: "frames_written (snd (convert_to_16_9 cap input_video output_video))
            = frames_written evs"
    by (cases r) (simp_all add: s frames_written_append)
  note P = geometry_positive[OF assms(2-5) g]
  have nn: "0 \<le> new_height g" "0 \<le> new_width g" using P(1,2) assms(2,4) by linarith+
  have sh: "list_all (is_frame (new_height g) (new_width g)) (frames_written evs)"
    unfolding wr using nn by (simp add: list_all_iff letterboxed_shape)
  have all: "frames_read evs = stream cap
          \<and> frames_written evs
              = map (letterboxed g (prop_frame_width cap) (prop_frame_height cap)) (stream cap)"
    if "fst (convert_to_16_9 cap input_video output_video) = Returned ()"
  proof -
    have "frames_read (snd (convert_to_16_9 cap input_video output_video)) = stream cap"
      using assms(1-5) that by (rule convert_returned_reads_all)
    then have "frames_read evs = stream cap" by (simp add: rd)
    then show ?thesis using wr by simp
  qed
  have ret: "fst (convert_to_16_9 cap input_video output_video) = Returned ()"
    if "(prop_frame_count cap \<noteq> 0 \<and> length (stream cap) < 2 ^ 53)
          \<or> length (stream cap) < 100"
    using assms that by (rule convert_returns)
  show ?thesis unfolding rd wt using g wr pre sh all ret by blast
qed

text \<open>
  The same on a source of 3 by 3 with two frames and a reported count of 2: the run
  returns and wrote the canvas of the first frame, then that of the second.
\<close>

theorem frames_composited_in_order_witness:
  "opened \<lparr>opened = True, prop_frame_width = 3, prop_frame_height = 3, prop_fps = 25,
           prop_frame_count = 2,
           stream = [replicate 3 (replicate 3 (7, 8, 9)), replicate 3 (replicate 3 (1, 2, 3))]\<rparr>
   \<and> list_all (is_frame 3 3)
         [replicate 3 (replicate 3 (7, 8, 9)), replicate 3 (replicate 3 (1, 2, 3))]
   \<and> fst (convert_to_16_9
          \<lparr>opened = True, prop_frame_width = 3, prop_frame_height = 3, prop_fps = 25,
           prop_frame_count = 2,
           stream = [replicate 3 (replicate 3 (7, 8, 9)), replicate 3 (replicate 3 (1, 2, 3))]\<rparr>
          ''in.mp4'' ''out.mp4'') = Returned ()
   \<and> (\<exists>g. target_geometry 3 3 = Inr g
     \<and> frames_written (snd (convert_to_16_9
          \<lparr>opened = True, prop_frame_width = 3, prop_frame_height = 3, prop_fps = 25,
           prop_frame_count = 2,
           stream = [replicate 3 (replicate 3 (7, 8, 9)), replicate 3 (replicate 3 (1, 2, 3))]\<rparr>
          ''in.mp4'' ''out.mp4''))
         = [letterboxed g 3 3 (replicate 3 (replicate 3 (7, 8, 9))),
            letterboxed g 3 3 (replicate 3 (replicate 3 (1, 2, 3)))])"
proof -
  define cap where "cap =
     \<lparr>opened = True, prop_frame_width = 3, prop_frame_height = 3, prop_fps = 25,
      prop_frame_count = 2,
      stream = [replicate 3 (replicate 3 (7, 8, 9)), replicate 3 (replicate 3 (1, 2, 3 :: 8 word))]\<rparr>"
  have fs: "list_all (is_frame 3 3)
         [replicate 3 (replicate 3 (7, 8, 9)), replicate 3 (replicate 3 (1, 2, 3 :: 8 word))]"
    by (simp add: is_frame_def list_all_iff)
  have h: "opened cap" "0 < prop_frame_width cap" "prop_frame_width cap < 2 ^ 31"
    "0 < prop_frame_height cap" "prop_frame_height cap < 2 ^ 31"
    "list_all (is_frame (prop_frame_height cap) (prop_frame_width cap)) (stream cap)"
    using fs by (simp_all add: cap_def)
  have c: "(prop_frame_count cap \<noteq> 0 \<and> length (stream cap) < 2 ^ 53)
          \<or> length (stream cap) < 100"
    by (simp add: cap_def)
  obtain g where g: "target_geometry (prop_frame_width cap) (prop_frame_height cap) = Inr g"
    and r: "fst (convert_to_16_9 cap ''in.mp4'' ''out.mp4'') = Returned ()"
    and w: "frames_written (snd (convert_to_16_9 cap ''in.mp4'' ''out.mp4''))
              = map (letterboxed g (prop_frame_width cap) (prop_frame_height cap)) (stream cap)"
    using frames_composited_in_order[OF h, of "''in.mp4''" "''out.mp4''"] c by blast
  have "target_geometry 3 3 = Inr g
     \<and> frames_written (snd (convert_to_16_9 cap ''in.mp4'' ''out.mp4''))
         = [letterboxed g 3 3 (replicate 3 (replicate 3 (7, 8, 9))),
            letterboxed g 3 3 (replicate 3 (replicate 3 (1, 2, 3)))]"
    using g w by (simp add: cap_def)
  then show ?thesis using fs r unfolding cap_def by auto
qed

text \<open>
  Claim C6: for a source whose width / height is exactly 16 / 9 (width and height
  positive, below \<open>2 ^ 31\<close>), the output dimensions are the input's, both paddings are
  zero, and the canvas built from a frame is that frame. So every frame a run writes is
  the source frame at the same position; a run that returns has written exactly the
  frames of the source, in their order; and the run returns whenever the reported frame
  count is not 0 (for a source of fewer than \<open>2 ^ 53\<close> frames) or the source has fewer
  than 100 frames.
\<close>

theorem already_16_9_is_unchanged:
  assumes "opened cap"
    and "0 < prop_frame_width cap" "prop_frame_width cap < 2 ^ 31"
    and "0 < prop_frame_height cap" "prop_frame_height cap < 2 ^ 31"
    and "(of_int (prop_frame_width cap) / of_int (prop_frame_height cap) :: rat) = 16 / 9"
    and "list_all (is_frame (prop_frame_height cap) (prop_frame_width cap)) (stream cap)"
  shows "target_geometry (prop_frame_width cap) (prop_frame_height cap)
           = Inr \<lparr>new_width = prop_frame_width cap, new_height = prop_frame_height cap,
                  h_padding = 0, v_padding = 0\<rparr>
     \<and> list_all (\<lambda>f. place_frame \<lparr>new_width = prop_frame_width cap,
                                   new_height = prop_frame_height cap,
                                   h_padding = 0, v_padding = 0\<rparr>
                        (prop_frame_width cap) (prop_frame_height cap) f = Inr f) (stream cap)
     \<and> frames_written (snd (convert_to_16_9 cap input_video output_video))
         = frames_read (snd (convert_to_16_9 cap input_video output_video))
     \<and> take (length (frames_written (snd (convert_to_16_9 cap input_video output_video))))
           (stream cap)
         = frames_written (snd (convert_to_16_9 cap input_video output_video))
     \<and> (fst (convert_to_16_9 cap input_video output_video) = Returned () \<longrightarrow>
          frames_written (snd (convert_to_16_9 cap input_video output_video)) = stream cap)
     \<and> ((prop_frame_count cap \<noteq> 0 \<and> length (stream cap) < 2 ^ 53)
          \<or> length (stream cap) < 100 \<longrightarrow>
          fst (convert_to_16_9 cap input_video output_video) = Returned ())"
proof -
  define w where "w = prop_frame_width cap"
  define h where "h = prop_frame_height cap"
  define g where "g = \<lparr>new_width = w, new_height = h, h_padding = 0, v_padding = 0\<rparr>"
  note b = assms(2-5)[folded w_def h_def]
  have hpos: "(0::rat) < of_int h" using b(3) by simp
  have "(of_int w :: rat) = 16 / 9 * of_int h"
    using assms(6) hpos unfolding w_def[symmetric] h_def[symmetric]
    by (simp add: field_simps)
  then have "(of_int (9 * w) :: rat) = of_int (16 * h)" by simp
  then have e: "9 * w = 16 * h" by (rule iffD1[OF of_int_eq_iff])
  then have "9 * w div 16 = h" by simp
  then have g: "target_geometry w h = Inr g"
    using target_geometry_eq[OF b] e by (simp add: g_def)
  have same: "letterboxed g w h f = f" if "is_frame h w f" for f
    using that b(3,1) by (rule letterboxed_same_size) (simp_all add: g_def)
  note fr = assms(7)[folded w_def h_def]
  have pl: "list_all (\<lambda>f. place_frame g w h f = Inr (letterboxed g w h f)) (stream cap)"
    using b g fr by (rule place_all_frames)
  have pl': "list_all (\<lambda>f. place_frame g w h f = Inr f) (stream cap)"
    using pl fr same by (simp add: list_all_iff)
  obtain r evs where loop: "frame_loop g w h (prop_frame_count cap) 0 (stream cap) = (r, evs)"
    by (cases "frame_loop g w h (prop_frame_count cap) 0 (stream cap)")
  have "frames_written evs = map (\<lambda>f. f) (frames_read evs)"
    using pl' loop by (rule frame_loop_written)
  then have wr: "frames_written evs = frames_read evs" by simp
  have pre: "take (length (frames_read evs)) (stream cap) = frames_read evs"
    using loop by (rule frame_loop_prefix)
  obtain start where s: "frames_read start = []" "frames_written start = []"
      "convert_to_16_9 cap input_video output_video =
         (case r of
            Some e \<Rightarrow> (Raised e, start @ evs)
          | None \<Rightarrow> (Returned (), start @ evs
                    @ [ReleaseCapture, ReleaseWriter, Print (ConversionComplete output_video)]))"
    using convert_opened[OF assms(1-5) g[unfolded w_def h_def] loop[unfolded w_def h_def],
        of input_video output_video] by blast
  have rd: "frames_read (snd (convert_to_16_9 cap input_video output_video)) = frames_read evs"
    by (cases r) (simp_all add: s frames_read_append)
  have wt: "frames_written (snd (convert_to_16_9 cap input_video output_video))
            = frames_written evs"
    by (cases r) (simp_all add: s frames_written_append)
  have c3: "frames_written (snd (convert_to_16_9 cap input_video output_video))
         = frames_read (snd (convert_to_16_9 cap input_video output_video))"
    by (simp add: rd wt wr)
  have c4: "take (length (frames_written (snd (convert_to_16_9 cap input_video output_video))))
           (stream cap)
         = frames_written (snd (convert_to_16_9 cap input_video output_video))"
    using pre by (simp add: wt wr)
  have c5: "frames_written (snd (convert_to_16_9 cap input_video output_video)) = stream cap"
    if "fst (convert_to_16_9 cap input_video output_video) = Returned ()"
  proof -
    have "frames_read (snd (convert_to_16_9 cap input_video output_video)) = stream cap"
      using assms(1-5) that by (rule convert_returned_reads_all)
    then show ?thesis by (simp add: c3)
  qed
  have c6: "fst (convert_to_16_9 cap input_video output_video) = Returned ()"
    if "(prop_frame_count cap \<noteq> 0 \<and> length (stream cap) < 2 ^ 53)
          \<or> length (stream cap) < 100"
    using assms(1-5,7) that by (rule convert_returns)
  have c1: "target_geometry (prop_frame_width cap) (prop_frame_height cap)
           = Inr \<lparr>new_width = prop_frame_width cap, new_height = prop_frame_height cap,
                  h_padding = 0, v_padding = 0\<rparr>"
    using g unfolding g_def w_def h_def .
  have c2: "list_all (\<lambda>f. place_frame \<lparr>new_width = prop_frame_width cap,
                                   new_height = prop_frame_height cap,
                                   h_padding = 0, v_padding = 0\<rparr>
                        (prop_frame_width cap) (prop_frame_height cap) f = Inr f) (stream cap)"
    using pl' unfolding g_def w_def h_def .
  show ?thesis using c1 c2 c3 c4 c5 c6 by blast
qed

text \<open>
  The same on a source of 16 by 9 with two frames and a reported count of 2: the run
  returns and what it wrote is the two frames of the source.
\<close>

theorem already_16_9_is_unchanged_witness:
  "opened \<lparr>opened = True, prop_frame_width = 16, prop_frame_height = 9, prop_fps = 25,
           prop_frame_count = 2,
           stream = [replicate 9 (replicate 16 (7, 8, 9)), replicate 9 (replicate 16 (1, 2, 3))]\<rparr>
   \<and> (of_int 16 / of_int 9 :: rat) = 16 / 9
   \<and> list_all (is_frame 9 16)
         [replicate 9 (replicate 16 (7, 8, 9)), replicate 9 (replicate 16 (1, 2, 3))]
   \<and> target_geometry 16 9
        = Inr \<lparr>new_width = 16, new_height = 9, h_padding = 0, v_padding = 0\<rparr>
   \<and> place_frame \<lparr>new_width = 16, new_height = 9, h_padding = 0, v_padding = 0\<rparr> 16 9
         (replicate 9 (replicate 16 (7, 8, 9))) = Inr (replicate 9 (replicate 16 (7, 8, 9)))
   \<and> fst (convert_to_16_9
          \<lparr>opened = True, prop_frame_width = 16, prop_frame_height = 9, prop_fps = 25,
           prop_frame_count = 2,
           stream = [replicate 9 (replicate 16 (7, 8, 9)), replicate 9 (replicate 16 (1, 2, 3))]\<rparr>
          ''in.mp4'' ''out.mp4'') = Returned ()
   \<and> frames_written (snd (convert_to_16_9
          \<lparr>opened = True, prop_frame_width = 16, prop_frame_height = 9, prop_fps = 25,
           prop_frame_count = 2,
           stream = [replicate 9 (replicate 16 (7, 8, 9)), replicate 9 (replicate 16 (1, 2, 3))]\<rparr>
          ''in.mp4'' ''out.mp4''))
       = [replicate 9 (replicate 16 (7, 8, 9)), replicate 9 (replicate 16 (1, 2, 3))]"
proof -
  define cap where "cap =
     \<lparr>opened = True, prop_frame_width = 16, prop_frame_height = 9, prop_fps = 25,
      prop_frame_count = 2,
      stream = [replicate 9 (replicate 16 (7, 8, 9)), replicate 9 (replicate 16 (1, 2, 3 :: 8 word))]\<rparr>"
  have fs: "list_all (is_frame 9 16)
         [replicate 9 (replicate 16 (7, 8, 9)), replicate 9 (replicate 16 (1, 2, 3 :: 8 word))]"
    by (simp add: is_frame_def list_all_iff)
  have h: "opened cap" "0 < prop_frame_width cap" "prop_frame_width cap < 2 ^ 31"
    "0 < prop_frame_height cap" "prop_frame_height cap < 2 ^ 31"
    "(of_int (prop_frame_width cap) / of_int (prop_frame_height cap) :: rat) = 16 / 9"
    "list_all (is_frame (prop_frame_height cap) (prop_frame_width cap)) (stream cap)"
    using fs by (simp_all add: cap_def)
  have c: "(prop_frame_count cap \<noteq> 0 \<and> length (stream cap) < 2 ^ 53)
          \<or> length (stream cap) < 100"
    by (simp add: cap_def)
  note t = already_16_9_is_unchanged[OF h, of "''in.mp4''" "''out.mp4''"]
  have r: "fst (convert_to_16_9 cap ''in.mp4'' ''out.mp4'') = Returned ()" using t c by blast
  then have w: "frames_written (snd (convert_to_16_9 cap ''in.mp4'' ''out.mp4'')) = stream cap"
    using t by blast
  show ?thesis
    using t r w fs unfolding cap_def by simp
qed

section \<open>The claims about the run\<close>

text \<open>
  Claim C7: when the source does not open, the run prints the error and returns; nothing
  else happens, so no frame is written and no writer is opened. A run that opens the
  writer has a source that opened.
\<close>

theorem open_failure_writes_nothing:
  "(\<not> opened cap \<longrightarrow>
      convert_to_16_9 cap input_video output_video
        = (Returned (), [Print (CouldNotOpen input_video)])
      \<and> frames_written (snd (convert_to_16_9 cap input_video output_video)) = []
      \<and> \<not> writer_opened (snd (convert_to_16_9 cap input_video output_video)))
   \<and> (writer_opened (snd (convert_to_16_9 cap input_video output_video)) \<longrightarrow> opened cap)"
proof -
  have a: "convert_to_16_9 cap input_video output_video
        = (Returned (), [Print (CouldNotOpen input_video)])" if "\<not> opened cap"
    using that by (simp add: convert_to_16_9_def)
  show ?thesis
  proof (cases "opened cap")
    case True
    then show ?thesis by simp
  next
    case False
    then show ?thesis by (simp add: a)
  qed
qed

text \<open>The same on a source of 640 by 480 that did not open.\<close>

theorem open_failure_writes_nothing_witness:
  "\<not> opened \<lparr>opened = False, prop_frame_width = 640, prop_frame_height = 480, prop_fps = 30,
             prop_frame_count = 10, stream = []\<rparr>
   \<and> convert_to_16_9 \<lparr>opened = False, prop_frame_width = 640, prop_frame_height = 480,
             prop_fps = 30, prop_frame_count = 10, stream = []\<rparr> ''in.mp4'' ''out.mp4''
       = (Returned (), [Print (CouldNotOpen ''in.mp4'')])"
  using open_failure_writes_nothing[of
      "\<lparr>opened = False, prop_frame_width = 640, prop_frame_height = 480, prop_fps = 30,
        prop_frame_count = 10, stream = []\<rparr>" "''in.mp4''" "''out.mp4''"]
  by simp

lemma convert_returned:
  assumes "opened cap" "fst (convert_to_16_9 cap input_video output_video) = Returned ()"
  shows "\<exists>start evs g.
           frame_loop g (prop_frame_width cap) (prop_frame_height cap) (prop_frame_count cap) 0
             (stream cap) = (None, evs)
         \<and> count_event ReleaseCapture start = 0 \<and> count_event ReleaseWriter start = 0
         \<and> snd (convert_to_16_9 cap input_video output_video)
             = start @ evs
               @ [ReleaseCapture, ReleaseWriter, Print (ConversionComplete output_video)]"
proof -
  obtain cr where cr: "int_truediv (prop_frame_width cap) (prop_frame_height cap) = Inr cr"
    using assms by (cases "int_truediv (prop_frame_width cap) (prop_frame_height cap)")
      (simp_all add: convert_to_16_9_def Let_def)
  obtain g where g: "new_dimensions cr (prop_frame_width cap) (prop_frame_height cap) = Inr g"
    using assms cr by (cases "new_dimensions cr (prop_frame_width cap) (prop_frame_height cap)")
      (simp_all add: convert_to_16_9_def Let_def)
  obtain nr where nr: "int_truediv (new_width g) (new_height g) = Inr nr"
    using assms cr g by (cases "int_truediv (new_width g) (new_height g)")
      (simp_all add: convert_to_16_9_def Let_def)
  obtain r evs where loop: "frame_loop g (prop_frame_width cap) (prop_frame_height cap)
           (prop_frame_count cap) 0 (stream cap) = (r, evs)"
    by (cases "frame_loop g (prop_frame_width cap) (prop_frame_height cap)
           (prop_frame_count cap) 0 (stream cap)")
  have r: "r = None"
    using assms cr g nr loop by (cases r) (simp_all add: convert_to_16_9_def Let_def)
  define start where "start =
     [OpenWriter output_video (prop_fps cap) (new_width g) (new_height g),
      Print Converting,
      Print (OriginalDimensions (prop_frame_width cap) (prop_frame_height cap) cr),
      Print (NewDimensions (new_width g) (new_height g) nr)]"
  have "snd (convert_to_16_9 cap input_video output_video)
             = start @ evs
               @ [ReleaseCapture, ReleaseWriter, Print (ConversionComplete output_video)]"
    using assms(1) cr g nr loop r by (simp add: convert_to_16_9_def Let_def start_def)
  moreover have "count_event ReleaseCapture start = 0" "count_event ReleaseWriter start = 0"
    by (simp_all add: start_def)
  ultimately show ?thesis using loop r by blast
qed

lemma convert_read_end:
  assumes "0 < count_event ReadEnd (snd (convert_to_16_9 cap input_video output_video))"
  shows "opened cap \<and> fst (convert_to_16_9 cap input_video output_video) = Returned ()"
proof -
  have o: "opened cap"
    using assms by (cases "opened cap") (simp_all add: convert_to_16_9_def)
  obtain cr where cr: "int_truediv (prop_frame_width cap) (prop_frame_height cap) = Inr cr"
    using assms o by (cases "int_truediv (prop_frame_width cap) (prop_frame_height cap)")
      (simp_all add: convert_to_16_9_def Let_def)
  obtain g where g: "new_dimensions cr (prop_frame_width cap) (prop_frame_height cap) = Inr g"
    using assms o cr by (cases "new_dimensions cr (prop_frame_width cap) (prop_frame_height cap)")
      (simp_all add: convert_to_16_9_def Let_def)
  obtain nr where nr: "int_truediv (new_width g) (new_height g) = Inr nr"
    using assms o cr g by (cases "int_truediv (new_width g) (new_height g)")
      (simp_all add: convert_to_16_9_def Let_def)
  obtain r evs where loop: "frame_loop g (prop_frame_width cap) (prop_frame_height cap)
           (prop_frame_count cap) 0 (stream cap) = (r, evs)"
    by (cases "frame_loop g (prop_frame_width cap) (prop_frame_height cap)
           (prop_frame_count cap) 0 (stream cap)")
  have "r = None"
  proof (cases r)
    case None
    then show ?thesis .
  next
    case (Some e)
    then have "count_event ReadEnd evs = 0" using frame_loop_end[OF loop] by simp
    then show ?thesis using assms o cr g nr loop Some
      by (simp add: convert_to_16_9_def Let_def count_event_append)
  qed
  then have "fst (convert_to_16_9 cap input_video output_video) = Returned ()"
    using o cr g nr loop by (simp add: convert_to_16_9_def Let_def)
  then show ?thesis using o by simp
qed

text \<open>
  Claim C8, as stated, fails on the open-failure path: the run returns at line 18
  without a call of \<open>release\<close>, so the source is released zero times, not once (and
  the writer, never opened, is not released either).
\<close>

theorem release_on_open_failure_counterexample:
  "count_event ReleaseCapture
     (snd (convert_to_16_9
        \<lparr>opened = False, prop_frame_width = 640, prop_frame_height = 480, prop_fps = 30,
         prop_frame_count = 10, stream = []\<rparr> ''in.mp4'' ''out.mp4'')) = 0
   \<and> count_event ReleaseWriter
     (snd (convert_to_16_9
        \<lparr>opened = False, prop_frame_width = 640, prop_frame_height = 480, prop_fps = 30,
         prop_frame_count = 10, stream = []\<rparr> ''in.mp4'' ''out.mp4'')) = 0"
  by (simp add: convert_to_16_9_def)

text \<open>
  Claim C8, amended: a run on a source that opened and that returns releases the source
  once and the writer once, both right after the read that reported the end of the
  stream; a run whose loop reaches that read does return; and a run on a source that did
  not open releases neither and never opens the writer.
\<close>

theorem release_once_after_loop:
  "(opened cap \<and> fst (convert_to_16_9 cap input_video output_video) = Returned () \<longrightarrow>
      count_event ReleaseCapture (snd (convert_to_16_9 cap input_video output_video)) = 1
      \<and> count_event ReleaseWriter (snd (convert_to_16_9 cap input_video output_video)) = 1
      \<and> (\<exists>before. snd (convert_to_16_9 cap input_video output_video)
             = before @ [ReadEnd, ReleaseCapture, ReleaseWriter,
                         Print (ConversionComplete output_video)]))
   \<and> (0 < count_event ReadEnd (snd (convert_to_16_9 cap input_video output_video)) \<longrightarrow>
        opened cap \<and> fst (convert_to_16_9 cap input_video output_video) = Returned ())
   \<and> (\<not> opened cap \<longrightarrow>
        count_event ReleaseCapture (snd (convert_to_16_9 cap input_video output_video)) = 0
        \<and> count_event ReleaseWriter (snd (convert_to_16_9 cap input_video output_video)) = 0
        \<and> \<not> writer_opened (snd (convert_to_16_9 cap input_video output_video)))"
proof (intro conjI impI)
  assume a: "opened cap \<and> fst (convert_to_16_9 cap input_video output_video) = Returned ()"
  then obtain start evs g where
    loop: "frame_loop g (prop_frame_width cap) (prop_frame_height cap) (prop_frame_count cap) 0
             (stream cap) = (None, evs)"
    and s: "count_event ReleaseCapture start = 0" "count_event ReleaseWriter start = 0"
    and tr: "snd (convert_to_16_9 cap input_video output_video)
             = start @ evs
               @ [ReleaseCapture, ReleaseWriter, Print (ConversionComplete output_video)]"
    using convert_returned[of cap input_video output_video] by blast
  note nr = frame_loop_no_release[OF loop]
  have e: "count_event ReadEnd evs = 1" "last evs = ReadEnd"
    using frame_loop_end[OF loop] by simp_all
  then have "evs \<noteq> []" by auto
  then have evs: "evs = butlast evs @ [ReadEnd]" using e(2) by (metis append_butlast_last_id)
  show "count_event ReleaseCapture (snd (convert_to_16_9 cap input_video output_video)) = 1"
    using s nr by (simp add: tr count_event_append)
  show "count_event ReleaseWriter (snd (convert_to_16_9 cap input_video output_video)) = 1"
    using s nr by (simp add: tr count_event_append)
  have "snd (convert_to_16_9 cap input_video output_video)
        = (start @ butlast evs) @ [ReadEnd, ReleaseCapture, ReleaseWriter,
                         Print (ConversionComplete output_video)]"
    by (subst tr, subst evs) simp
  then show "\<exists>before. snd (convert_to_16_9 cap input_video output_video)
             = before @ [ReadEnd, ReleaseCapture, ReleaseWriter,
                         Print (ConversionComplete output_video)]" by blast
next
  assume "0 < count_event ReadEnd (snd (convert_to_16_9 cap input_video output_video))"
  then show "opened cap" and "fst (convert_to_16_9 cap input_video output_video) = Returned ()"
    using convert_read_end by blast+
next
  assume "\<not> opened cap"
  then have "convert_to_16_9 cap input_video output_video
        = (Returned (), [Print (CouldNotOpen input_video)])"
    by (simp add: convert_to_16_9_def)
  then show
    "count_event ReleaseCapture (snd (convert_to_16_9 cap input_video output_video)) = 0"
    "count_event ReleaseWriter (snd (convert_to_16_9 cap input_video output_video)) = 0"
    "\<not> writer_opened (snd (convert_to_16_9 cap input_video output_video))"
    by simp_all
qed


text \<open>The same on a source of 3 by 3 with two frames, whose run returns.\<close>

theorem release_once_after_loop_witness:
  "opened \<lparr>opened = True, prop_frame_width = 3, prop_frame_height = 3, prop_fps = 25,
           prop_frame_count = 2,
           stream = [replicate 3 (replicate 3 (7, 8, 9)), replicate 3 (replicate 3 (1, 2, 3))]\<rparr>
   \<and> fst (convert_to_16_9
          \<lparr>opened = True, prop_frame_width = 3, prop_frame_height = 3, prop_fps = 25,
           prop_frame_count = 2,
           stream = [replicate 3 (replicate 3 (7, 8, 9)), replicate 3 (replicate 3 (1, 2, 3))]\<rparr>
          ''in.mp4'' ''out.mp4'') = Returned ()
   \<and> count_event ReleaseCapture (snd (convert_to_16_9
          \<lparr>opened = True, prop_frame_width = 3, prop_frame_height = 3, prop_fps = 25,
           prop_frame_count = 2,
           stream = [replicate 3 (replicate 3 (7, 8, 9)), replicate 3 (replicate 3 (1, 2, 3))]\<rparr>
          ''in.mp4'' ''out.mp4'')) = 1
   \<and> count_event ReleaseWriter (snd (convert_to_16_9
          \<lparr>opened = True, prop_frame_width = 3, prop_frame_height = 3, prop_fps = 25,
           prop_frame_count = 2,
           stream = [replicate 3 (replicate 3 (7, 8, 9)), replicate 3 (replicate 3 (1, 2, 3))]\<rparr>
          ''in.mp4'' ''out.mp4'')) = 1"
proof -
  define cap where "cap =
     \<lparr>opened = True, prop_frame_width = 3, prop_frame_height = 3, prop_fps = 25,
      prop_frame_count = 2,
      stream = [replicate 3 (replicate 3 (7, 8, 9)), replicate 3 (replicate 3 (1, 2, 3 :: 8 word))]\<rparr>"
  have fs: "list_all (is_frame 3 3)
         [replicate 3 (replicate 3 (7, 8, 9)), replicate 3 (replicate 3 (1, 2, 3 :: 8 word))]"
    by (simp add: is_frame_def list_all_iff)
  have h: "opened cap" "0 < prop_frame_width cap" "prop_frame_width cap < 2 ^ 31"
    "0 < prop_frame_height cap" "prop_frame_height cap < 2 ^ 31"
    "list_all (is_frame (prop_frame_height cap) (prop_frame_width cap)) (stream cap)"
    "length (stream cap) < 100"
    using fs by (simp_all add: cap_def)
  have r: "fst (convert_to_16_9 cap ''in.mp4'' ''out.mp4'') = Returned ()"
    using h by (rule convert_short_returns)
  show ?thesis
    using release_once_after_loop[of cap "''in.mp4''" "''out.mp4''"] h(1) r
    unfolding cap_def by simp
qed

text \<open>
  Claim C4 holds of the code only while line 73 does not raise. With a reported frame
  count of 0 and a source of 150 frames (2 by 1), the division of line 73 raises
  \<open>ZeroDivisionError\<close> after the 100th frame: the loop ends there and not at the end of
  the stream, 100 frames were read and written, 50 were never read, and neither the
  source nor the writer is released.
\<close>

theorem zero_frame_count_truncates_output:
  "fst (convert_to_16_9
          \<lparr>opened = True, prop_frame_width = 2, prop_frame_height = 1, prop_fps = 30,
           prop_frame_count = 0, stream = replicate 150 [[(1, 1, 1), (2, 2, 2)]]\<rparr>
          ''in.mp4'' ''out.mp4'') = Raised ZeroDivisionError
   \<and> length (frames_written (snd (convert_to_16_9
          \<lparr>opened = True, prop_frame_width = 2, prop_frame_height = 1, prop_fps = 30,
           prop_frame_count = 0, stream = replicate 150 [[(1, 1, 1), (2, 2, 2)]]\<rparr>
          ''in.mp4'' ''out.mp4''))) = 100
   \<and> length (frames_read (snd (convert_to_16_9
          \<lparr>opened = True, prop_frame_width = 2, prop_frame_height = 1, prop_fps = 30,
           prop_frame_count = 0, stream = replicate 150 [[(1, 1, 1), (2, 2, 2)]]\<rparr>
          ''in.mp4'' ''out.mp4''))) = 100
   \<and> count_event ReadEnd (snd (convert_to_16_9
          \<lparr>opened = True, prop_frame_width = 2, prop_frame_height = 1, prop_fps = 30,
           prop_frame_count = 0, stream = replicate 150 [[(1, 1, 1), (2, 2, 2)]]\<rparr>
          ''in.mp4'' ''out.mp4'')) = 0
   \<and> length (stream
          \<lparr>opened = True, prop_frame_width = 2, prop_frame_height = 1, prop_fps = 30,
           prop_frame_count = 0, stream = replicate 150 [[(1, 1, 1), (2, 2, 2 :: 8 word)]]\<rparr>)
       = 150"
proof -
  define cap where "cap =
     \<lparr>opened = True, prop_frame_width = 2, prop_frame_height = 1, prop_fps = 30,
      prop_frame_count = 0, stream = replicate 150 [[(1, 1, 1), (2, 2, 2 :: 8 word)]]\<rparr>"
  have h: "opened cap" "0 < prop_frame_width cap" "prop_frame_width cap < 2 ^ 31"
    "0 < prop_frame_height cap" "prop_frame_height cap < 2 ^ 31"
    "prop_frame_count cap = 0" "100 \<le> length (stream cap)"
    "list_all (is_frame (prop_frame_height cap) (prop_frame_width cap)) (stream cap)"
    by (simp_all add: cap_def is_frame_def list_all_iff)
  note z = convert_zero_count[OF h, of "''in.mp4''" "''out.mp4''"]
  show ?thesis using z(1-4) unfolding cap_def by simp
qed

text \<open>
  Claim C5 fails on the code by the same division: with a reported frame count of 0 and
  a source of exactly 100 frames (2 by 1), the run does not complete; the progress
  computation after the 100th frame raises \<open>ZeroDivisionError\<close>, which leaves the
  function, and neither the source nor the writer is released.
\<close>

theorem zero_frame_count_raises:
  "fst (convert_to_16_9
          \<lparr>opened = True, prop_frame_width = 2, prop_frame_height = 1, prop_fps = 30,
           prop_frame_count = 0, stream = replicate 100 [[(1, 1, 1), (2, 2, 2)]]\<rparr>
          ''in.mp4'' ''out.mp4'') = Raised ZeroDivisionError
   \<and> count_event ReleaseCapture (snd (convert_to_16_9
          \<lparr>opened = True, prop_frame_width = 2, prop_frame_height = 1, prop_fps = 30,
           prop_frame_count = 0, stream = replicate 100 [[(1, 1, 1), (2, 2, 2)]]\<rparr>
          ''in.mp4'' ''out.mp4'')) = 0
   \<and> count_event ReleaseWriter (snd (convert_to_16_9
          \<lparr>opened = True, prop_frame_width = 2, prop_frame_height = 1, prop_fps = 30,
           prop_frame_count = 0, stream = replicate 100 [[(1, 1, 1), (2, 2, 2)]]\<rparr>
          ''in.mp4'' ''out.mp4'')) = 0"
proof -
  define cap where "cap =
     \<lparr>opened = True, prop_frame_width = 2, prop_frame_height = 1, prop_fps = 30,
      prop_frame_count = 0, stream = replicate 100 [[(1, 1, 1), (2, 2, 2 :: 8 word)]]\<rparr>"
  have h: "opened cap" "0 < prop_frame_width cap" "prop_frame_width cap < 2 ^ 31"
    "0 < prop_frame_height cap" "prop_frame_height cap < 2 ^ 31"
    "prop_frame_count cap = 0" "100 \<le> length (stream cap)"
    "list_all (is_frame (prop_frame_height cap) (prop_frame_width cap)) (stream cap)"
    by (simp_all add: cap_def is_frame_def list_all_iff)
  note z = convert_zero_count[OF h, of "''in.mp4''" "''out.mp4''"]
  show ?thesis using z(1,5,6) unfolding cap_def by simp
qed

section \<open>The claim about download_video\<close>






end
